theory Spec2Isabelle
  imports Complex_Main
begin

section \<open>Order book maintenance: the embedding of \<^verbatim>\<open>orderbook_maintenance.py\<close>\<close>

text \<open>
  Prices, quantities and timestamps are Python floats in the source. They are embedded as
  \<^typ>\<open>real\<close>: every comparison and every arithmetic step of the source is kept, in
  the order the source performs it, and rounding is not modelled. The tolerance of the
  crossing loop is the literal \<^verbatim>\<open>1e-15\<close>.

  A method that mutates \<^verbatim>\<open>self\<close> takes the object and returns the new one. A method
  that can raise returns a sum: \<open>Inl (e, s)\<close> is the exception \<open>e\<close> together with the
  object as it is at the moment of the raise, \<open>Inr\<close> is normal completion.
\<close>

datatype py_error =
    ValueError_side    \<comment> \<open>\<^verbatim>\<open>raise ValueError("side must be ...")\<close>\<close>
  | ValueError_index   \<comment> \<open>\<^verbatim>\<open>list.index\<close> of a value that is not in the list\<close>
  | KeyError           \<comment> \<open>\<^verbatim>\<open>d[k]\<close> on a missing key\<close>

subsection \<open>The list operations of Python that the source calls\<close>

text \<open>\<^verbatim>\<open>bisect.bisect_left(a, x)\<close>: the binary search of the standard library.\<close>

function bisect_left_loop :: "real list \<Rightarrow> real \<Rightarrow> nat \<Rightarrow> nat \<Rightarrow> nat" where
  "bisect_left_loop a x lo hi =
     (if lo < hi then
        (let mid = (lo + hi) div 2 in
         if a ! mid < x then bisect_left_loop a x (mid + 1) hi
         else bisect_left_loop a x lo mid)
      else lo)"
  by pat_completeness auto
termination
  by (relation "measure (\<lambda>(a, x, lo, hi). hi - lo)") auto

declare bisect_left_loop.simps [simp del]

definition bisect_left :: "real list \<Rightarrow> real \<Rightarrow> nat" where
  "bisect_left a x = bisect_left_loop a x 0 (length a)"

text \<open>\<^verbatim>\<open>bisect.bisect_right(a, x)\<close>.\<close>

function bisect_right_loop :: "real list \<Rightarrow> real \<Rightarrow> nat \<Rightarrow> nat \<Rightarrow> nat" where
  "bisect_right_loop a x lo hi =
     (if lo < hi then
        (let mid = (lo + hi) div 2 in
         if x < a ! mid then bisect_right_loop a x lo mid
         else bisect_right_loop a x (mid + 1) hi)
      else lo)"
  by pat_completeness auto
termination
  by (relation "measure (\<lambda>(a, x, lo, hi). hi - lo)") auto

declare bisect_right_loop.simps [simp del]

definition bisect_right :: "real list \<Rightarrow> real \<Rightarrow> nat" where
  "bisect_right a x = bisect_right_loop a x 0 (length a)"

text \<open>\<^verbatim>\<open>a.index(x)\<close>: the first position of \<open>x\<close>, \<open>None\<close> where Python raises.\<close>

fun index_of :: "real list \<Rightarrow> real \<Rightarrow> nat option" where
  "index_of [] x = None"
| "index_of (y # ys) x =
     (if y = x then Some 0 else map_option Suc (index_of ys x))"

text \<open>\<^verbatim>\<open>a.pop(i)\<close> for an index in range, and \<^verbatim>\<open>a.insert(i, x)\<close>.\<close>

definition pop_at :: "nat \<Rightarrow> real list \<Rightarrow> real list" where
  "pop_at i a = take i a @ drop (Suc i) a"

definition insert_at :: "nat \<Rightarrow> real \<Rightarrow> real list \<Rightarrow> real list" where
  "insert_at i x a = take i a @ x # drop i a"

text \<open>\<^verbatim>\<open>d.get(k, default)\<close>.\<close>

definition dict_get :: "(real \<rightharpoonup> real) \<Rightarrow> real \<Rightarrow> real \<Rightarrow> real" where
  "dict_get d k dflt = (case d k of None \<Rightarrow> dflt | Some v \<Rightarrow> v)"

subsection \<open>\<^verbatim>\<open>class SideBook\<close>\<close>

record SideBook =
  is_ask :: bool
  prices :: "real list"
  qty :: "real \<rightharpoonup> real"

definition new_side :: "bool \<Rightarrow> SideBook" where
  "new_side a = \<lparr>is_ask = a, prices = [], qty = Map.empty\<rparr>"

definition key_index :: "SideBook \<Rightarrow> real \<Rightarrow> nat" where
  "key_index s price =
     (if is_ask s then bisect_left (prices s) price
      else (let negs = map uminus (prices s) in bisect_left negs (- price)))"

definition update_level ::
  "SideBook \<Rightarrow> real \<Rightarrow> real \<Rightarrow> (py_error \<times> SideBook) + SideBook" where
  "update_level s price new_qty =
     (if new_qty \<le> 0 then
        (if price \<in> dom (qty s) then
           (case index_of (prices s) price of
              None \<Rightarrow> Inl (ValueError_index, s)
            | Some idx \<Rightarrow>
                Inr (s\<lparr>prices := pop_at idx (prices s), qty := (qty s)(price := None)\<rparr>))
         else Inr s)
      else if price \<in> dom (qty s) then Inr (s\<lparr>qty := (qty s)(price \<mapsto> new_qty)\<rparr>)
      else (let idx = key_index s price in
            Inr (s\<lparr>prices := insert_at idx price (prices s),
                   qty := (qty s)(price \<mapsto> new_qty)\<rparr>)))"

text \<open>A batch of levels applied one after the other, as the \<^verbatim>\<open>for\<close> loops of
  \<^verbatim>\<open>apply_snapshot\<close> and \<^verbatim>\<open>apply_diff\<close> do; the first exception ends the loop.\<close>

fun update_levels ::
  "SideBook \<Rightarrow> (real \<times> real) list \<Rightarrow> (py_error \<times> SideBook) + SideBook" where
  "update_levels s [] = Inr s"
| "update_levels s ((price, q) # rest) =
     (case update_level s price q of
        Inl err \<Rightarrow> Inl err
      | Inr s' \<Rightarrow> update_levels s' rest)"

text \<open>The invariants of a side: strictly monotonic prices in the side's direction, the
  price sequence and the mapping hold the same keys, every stored quantity is positive.\<close>

definition side_sorted :: "bool \<Rightarrow> real list \<Rightarrow> bool" where
  "side_sorted a ps = (if a then sorted_wrt (<) ps else sorted_wrt (>) ps)"

definition side_inv :: "SideBook \<Rightarrow> bool" where
  "side_inv s \<longleftrightarrow>
     side_sorted (is_ask s) (prices s) \<and> set (prices s) = dom (qty s) \<and>
     (\<forall>p q. qty s p = Some q \<longrightarrow> 0 < q)"

text \<open>\<^verbatim>\<open>notional_ahead\<close>: the ask branch sums the slice \<^verbatim>\<open>prices[: idx + 1]\<close>, the bid
  branch scans from the best price and leaves the loop at the first price below the
  threshold.\<close>

fun bid_scan :: "(real \<rightharpoonup> real) \<Rightarrow> real \<Rightarrow> real \<Rightarrow> real list \<Rightarrow> real" where
  "bid_scan d price tot [] = tot"
| "bid_scan d price tot (p # ps) =
     (if p \<ge> price then bid_scan d price (tot + p * dict_get d p 0) ps else tot)"

definition notional_ahead :: "SideBook \<Rightarrow> real \<Rightarrow> real" where
  "notional_ahead s price =
     (if prices s = [] then 0
      else if is_ask s then
        (let idx = int (bisect_right (prices s) price) - 1 in
         if idx < 0 then 0
         else foldl (\<lambda>tot p. tot + p * dict_get (qty s) p 0) 0
                (take (nat (idx + 1)) (prices s)))
      else bid_scan (qty s) price 0 (prices s))"

text \<open>\<^verbatim>\<open>best_n\<close>: the comprehension reads \<^verbatim>\<open>self.qty[p]\<close>, which raises on a price that
  the mapping does not hold.\<close>

fun levels_of :: "(real \<rightharpoonup> real) \<Rightarrow> real list \<Rightarrow> py_error + (real \<times> real) list" where
  "levels_of d [] = Inr []"
| "levels_of d (p # ps) =
     (case d p of
        None \<Rightarrow> Inl KeyError
      | Some q \<Rightarrow> (case levels_of d ps of Inl e \<Rightarrow> Inl e | Inr r \<Rightarrow> Inr ((p, q) # r)))"

definition best_n :: "SideBook \<Rightarrow> nat \<Rightarrow> py_error + (real \<times> real) list" where
  "best_n s n = levels_of (qty s) (take n (prices s))"

subsection \<open>\<^verbatim>\<open>class OrderBook\<close>\<close>

record OrderBook =
  bids :: SideBook
  asks :: SideBook

definition new_book :: OrderBook where
  "new_book = \<lparr>bids = new_side False, asks = new_side True\<rparr>"

definition apply_snapshot ::
  "OrderBook \<Rightarrow> (real \<times> real) list \<Rightarrow> (real \<times> real) list \<Rightarrow> (py_error \<times> OrderBook) + OrderBook"
  where
  "apply_snapshot b bid_levels ask_levels =
     (let b0 = b\<lparr>bids := new_side False, asks := new_side True\<rparr> in
      case update_levels (bids b0) bid_levels of
        Inl (e, s) \<Rightarrow> Inl (e, b0\<lparr>bids := s\<rparr>)
      | Inr s \<Rightarrow>
          (let b1 = b0\<lparr>bids := s\<rparr> in
           case update_levels (asks b1) ask_levels of
             Inl (e, s') \<Rightarrow> Inl (e, b1\<lparr>asks := s'\<rparr>)
           | Inr s' \<Rightarrow> Inr (b1\<lparr>asks := s'\<rparr>)))"

definition apply_diff ::
  "OrderBook \<Rightarrow> (real \<times> real) list \<Rightarrow> (real \<times> real) list \<Rightarrow> (py_error \<times> OrderBook) + OrderBook"
  where
  "apply_diff b bid_levels ask_levels =
     (case update_levels (bids b) bid_levels of
        Inl (e, s) \<Rightarrow> Inl (e, b\<lparr>bids := s\<rparr>)
      | Inr s \<Rightarrow>
          (let b1 = b\<lparr>bids := s\<rparr> in
           case update_levels (asks b1) ask_levels of
             Inl (e, s') \<Rightarrow> Inl (e, b1\<lparr>asks := s'\<rparr>)
           | Inr s' \<Rightarrow> Inr (b1\<lparr>asks := s'\<rparr>)))"

text \<open>\<^verbatim>\<open>top10\<close> returns the dictionary \<^verbatim>\<open>{"bids": ..., "asks": ...}\<close>.\<close>

record top_levels =
  top_bids :: "(real \<times> real) list"
  top_asks :: "(real \<times> real) list"

definition top10 :: "OrderBook \<Rightarrow> py_error + top_levels" where
  "top10 b =
     (case best_n (bids b) 10 of
        Inl e \<Rightarrow> Inl e
      | Inr bs \<Rightarrow>
          (case best_n (asks b) 10 of
             Inl e \<Rightarrow> Inl e
           | Inr as \<Rightarrow> Inr \<lparr>top_bids = bs, top_asks = as\<rparr>))"

text \<open>\<^verbatim>\<open>return self.top10()\<close> inside a method that has mutated the book to \<open>b\<close>.\<close>

definition return_top10 :: "OrderBook \<Rightarrow> (py_error \<times> OrderBook) + (top_levels \<times> OrderBook)" where
  "return_top10 b = (case top10 b of Inl e \<Rightarrow> Inl (e, b) | Inr t \<Rightarrow> Inr (t, b))"

text \<open>\<^verbatim>\<open>str.lower\<close> on the ASCII letters, which is what the side tokens are compared
  with.\<close>

definition lower_char :: "char \<Rightarrow> char" where
  "lower_char c =
     (if 65 \<le> (of_char c :: nat) \<and> (of_char c :: nat) \<le> 90
      then char_of ((of_char c :: nat) + 32) else c)"

definition lower :: "string \<Rightarrow> string" where
  "lower s = map lower_char s"

definition tolerance :: real where
  "tolerance = 1 / 10 ^ 15"

text \<open>The \<^verbatim>\<open>while\<close> loop of \<^verbatim>\<open>place_limit_order\<close>. The source writes it twice, against
  the asks with \<^verbatim>\<open>prices[0] <= price\<close> for a buy and against the bids with
  \<^verbatim>\<open>prices[0] >= price\<close> for a sell; \<open>buy\<close> selects the comparison and \<open>opp\<close> is the
  side the order trades against. The result is that side and the remaining quantity.\<close>

function cross ::
  "bool \<Rightarrow> SideBook \<Rightarrow> real \<Rightarrow> real \<Rightarrow> (py_error \<times> SideBook \<times> real) + (SideBook \<times> real)"
  where
  "cross buy opp price q =
     (case prices opp of
        [] \<Rightarrow> Inr (opp, q)
      | p # _ \<Rightarrow>
          if (if buy then p \<le> price else p \<ge> price) \<and> q > tolerance then
            (case qty opp p of
               None \<Rightarrow> Inl (KeyError, opp, q)
             | Some level_q \<Rightarrow>
                 (let take_q = min level_q q in
                  case update_level opp p (level_q - take_q) of
                    Inl (e, s) \<Rightarrow> Inl (e, s, q)
                  | Inr s1 \<Rightarrow>
                      (case (if p \<in> dom (qty s1) \<and> dict_get (qty s1) p 0 \<le> tolerance
                             then update_level s1 p 0 else Inr s1) of
                         Inl (e, s) \<Rightarrow> Inl (e, s, q)
                       | Inr s2 \<Rightarrow> cross buy s2 price (q - take_q))))
          else Inr (opp, q))"
  by pat_completeness auto

termination
proof (relation "measure (\<lambda>(buy, opp, price, q).
         length (prices opp) + (if q > tolerance then 1 else 0))", goal_cases)
  case 1
  then show ?case by simp
next
  case 2
  then show ?case
    by (auto simp: update_level_def pop_at_def tolerance_def dict_get_def min_def
        split: if_splits)
qed

declare cross.simps [simp del]

definition place_limit_order ::
  "OrderBook \<Rightarrow> string \<Rightarrow> real \<Rightarrow> real \<Rightarrow> (py_error \<times> OrderBook) + (top_levels \<times> OrderBook)"
  where
  "place_limit_order b side price q =
     (let s = lower side in
      if q \<le> 0 then return_top10 b
      else if s \<in> set [''buy'', ''bid''] then
        (case cross True (asks b) price q of
           Inl (e, a', q') \<Rightarrow> Inl (e, b\<lparr>asks := a'\<rparr>)
         | Inr (a', q') \<Rightarrow>
             (let b1 = b\<lparr>asks := a'\<rparr> in
              if q' > tolerance then
                (let existing = dict_get (qty (bids b1)) price 0 in
                 case update_level (bids b1) price (existing + q') of
                   Inl (e, s') \<Rightarrow> Inl (e, b1\<lparr>bids := s'\<rparr>)
                 | Inr s' \<Rightarrow> return_top10 (b1\<lparr>bids := s'\<rparr>))
              else return_top10 b1))
      else if s \<in> set [''sell'', ''ask''] then
        (case cross False (bids b) price q of
           Inl (e, a', q') \<Rightarrow> Inl (e, b\<lparr>bids := a'\<rparr>)
         | Inr (a', q') \<Rightarrow>
             (let b1 = b\<lparr>bids := a'\<rparr> in
              if q' > tolerance then
                (let existing = dict_get (qty (asks b1)) price 0 in
                 case update_level (asks b1) price (existing + q') of
                   Inl (e, s') \<Rightarrow> Inl (e, b1\<lparr>asks := s'\<rparr>)
                 | Inr s' \<Rightarrow> return_top10 (b1\<lparr>asks := s'\<rparr>))
              else return_top10 b1))
      else Inl (ValueError_side, b))"

subsection \<open>\<^verbatim>\<open>class OrderBookEngine\<close>\<close>

text \<open>A row of the CSV file after \<^verbatim>\<open>_parse\<close>; the file behind \<^verbatim>\<open>self.path\<close> is the
  list of its rows, in file order.\<close>

record csv_row =
  row_symbol :: string
  row_time :: real
  row_bids :: "(real \<times> real) list"
  row_asks :: "(real \<times> real) list"

record OrderBookEngine =
  path :: string
  books :: "string \<rightharpoonup> OrderBook"

text \<open>\<^verbatim>\<open>_book\<close>: the book of a symbol, registered empty on first use.\<close>

definition book_of :: "OrderBookEngine \<Rightarrow> string \<Rightarrow> OrderBookEngine \<times> OrderBook" where
  "book_of e symbol =
     (case books e symbol of
        None \<Rightarrow> (e\<lparr>books := (books e)(symbol \<mapsto> new_book)\<rparr>, new_book)
      | Some b \<Rightarrow> (e, b))"

text \<open>The \<^verbatim>\<open>for row in reader\<close> loop of \<^verbatim>\<open>build_until\<close>, with its local \<^verbatim>\<open>seen\<close>.\<close>

fun build_loop ::
  "string \<Rightarrow> real \<Rightarrow> OrderBook \<Rightarrow> bool \<Rightarrow> csv_row list \<Rightarrow> (py_error \<times> OrderBook) + OrderBook"
  where
  "build_loop symbol until_ts book seen [] = Inr book"
| "build_loop symbol until_ts book seen (row # rest) =
     (if row_symbol row \<noteq> symbol then build_loop symbol until_ts book seen rest
      else
        (case (if \<not> seen then apply_snapshot book (row_bids row) (row_asks row)
               else apply_diff book (row_bids row) (row_asks row)) of
           Inl err \<Rightarrow> Inl err
         | Inr book' \<Rightarrow>
             if row_time row \<ge> until_ts then Inr book'
             else build_loop symbol until_ts book' True rest))"

text \<open>\<^verbatim>\<open>book\<close> is the object the registry holds, so the registry sees every mutation;
  the model stores the book back under its symbol.\<close>

definition build_until ::
  "OrderBookEngine \<Rightarrow> csv_row list \<Rightarrow> string \<Rightarrow> real \<Rightarrow>
   (py_error \<times> OrderBookEngine) + (top_levels \<times> OrderBookEngine)" where
  "build_until e rows symbol until_ts =
     (case book_of e symbol of
        (e1, book) \<Rightarrow>
          (case build_loop symbol until_ts book False rows of
             Inl (err, book') \<Rightarrow> Inl (err, e1\<lparr>books := (books e1)(symbol \<mapsto> book')\<rparr>)
           | Inr book' \<Rightarrow>
               (let e2 = e1\<lparr>books := (books e1)(symbol \<mapsto> book')\<rparr> in
                case top10 book' of
                  Inl err \<Rightarrow> Inl (err, e2)
                | Inr t \<Rightarrow> Inr (t, e2))))"

definition expose :: "OrderBookEngine \<Rightarrow> string \<Rightarrow> OrderBook option" where
  "expose e symbol = books e symbol"

subsection \<open>What a batch of levels does to the quantity mapping\<close>

text \<open>The effect of one \<^verbatim>\<open>update_level\<close> call, and of a batch of them, on the mapping
  alone: a quantity at or below zero deletes the key, any other quantity is stored.\<close>

fun upsert_map :: "(real \<rightharpoonup> real) \<Rightarrow> real \<times> real \<Rightarrow> (real \<rightharpoonup> real)" where
  "upsert_map m (p, q) = (if q \<le> 0 then m(p := None) else m(p \<mapsto> q))"

definition apply_map :: "(real \<rightharpoonup> real) \<Rightarrow> (real \<times> real) list \<Rightarrow> (real \<rightharpoonup> real)" where
  "apply_map m ops = foldl upsert_map m ops"

text \<open>The sorted position of a new price, as the specification describes it: after the
  prices that are better in the side's direction and before the others.\<close>

definition insert_sorted :: "bool \<Rightarrow> real \<Rightarrow> real list \<Rightarrow> real list" where
  "insert_sorted a p ps =
     filter (\<lambda>x. if a then x < p else x > p) ps @ p # filter (\<lambda>x. if a then p < x else p > x) ps"

subsection \<open>The level-by-level merge of a snapshot batch and a diff batch\<close>

text \<open>The merge as the specification words it: an entry of the diff replaces the entry
  of the snapshot at its price, or removes it when its quantity is at or below zero; an
  entry of the diff at a price the snapshot does not hold is added; every other entry of
  the snapshot is kept as it is.\<close>

fun merge_level :: "(real \<times> real) list \<Rightarrow> real \<times> real \<Rightarrow> (real \<times> real) list" where
  "merge_level S (p, q) =
     (if q \<le> 0 then filter (\<lambda>l. fst l \<noteq> p) S
      else if p \<in> fst ` set S then map (\<lambda>l. if fst l = p then (p, q) else l) S
      else S @ [(p, q)])"

definition merge_levels :: "(real \<times> real) list \<Rightarrow> (real \<times> real) list \<Rightarrow> (real \<times> real) list" where
  "merge_levels S D = foldl merge_level S D"

subsection \<open>The replay that \<^verbatim>\<open>build_until\<close> is specified to perform\<close>

text \<open>The records the specification says are applied: of the records of the requested
  symbol, those before the first one whose timestamp reaches the horizon, and that one.\<close>

definition applied_rows :: "string \<Rightarrow> real \<Rightarrow> csv_row list \<Rightarrow> csv_row list" where
  "applied_rows symbol h rows =
     (let qualifying = filter (\<lambda>r. row_symbol r = symbol) rows in
      takeWhile (\<lambda>r. row_time r < h) qualifying @
      take 1 (dropWhile (\<lambda>r. row_time r < h) qualifying))"

text \<open>The first of them is applied as a snapshot, every later one as a diff.\<close>

fun apply_diffs :: "OrderBook \<Rightarrow> csv_row list \<Rightarrow> (py_error \<times> OrderBook) + OrderBook" where
  "apply_diffs b [] = Inr b"
| "apply_diffs b (r # rs) =
     (case apply_diff b (row_bids r) (row_asks r) of
        Inl err \<Rightarrow> Inl err
      | Inr b' \<Rightarrow> apply_diffs b' rs)"

definition replay :: "OrderBook \<Rightarrow> csv_row list \<Rightarrow> (py_error \<times> OrderBook) + OrderBook" where
  "replay b rs =
     (case rs of
        [] \<Rightarrow> Inr b
      | r # rest \<Rightarrow>
          (case apply_snapshot b (row_bids r) (row_asks r) of
             Inl err \<Rightarrow> Inl err
           | Inr b' \<Rightarrow> apply_diffs b' rest))"

subsection \<open>The crossing algorithm as the specification describes it\<close>

text \<open>A side read as its list of levels, best price first.\<close>

definition levels :: "SideBook \<Rightarrow> (real \<times> real) list" where
  "levels s = map (\<lambda>p. (p, dict_get (qty s) p 0)) (prices s)"

text \<open>The loop of the specification on such a list: while there is a best level, its
  price is marketable against the limit price \<open>P\<close> and the remaining quantity \<open>r\<close>
  exceeds the tolerance, take the smaller of the level's quantity and \<open>r\<close> from both; a
  level whose remainder is at or below the tolerance is deleted. The result is the levels
  left and the quantity left.\<close>

function spec_cross ::
  "bool \<Rightarrow> real \<Rightarrow> (real \<times> real) list \<Rightarrow> real \<Rightarrow> (real \<times> real) list \<times> real" where
  "spec_cross buy P [] r = ([], r)"
| "spec_cross buy P ((p, l) # ls) r =
     (if (if buy then p \<le> P else p \<ge> P) \<and> r > tolerance then
        (if l - min l r \<le> tolerance then spec_cross buy P ls (r - min l r)
         else spec_cross buy P ((p, l - min l r) # ls) (r - min l r))
      else ((p, l) # ls, r))"
  by pat_completeness auto
termination
  by (relation "measure (\<lambda>(buy, P, ls, r). length ls + (if r > tolerance then 1 else 0))")
     (auto simp: tolerance_def min_def split: if_splits)

declare spec_cross.simps [simp del]

text \<open>The invariants of a book: each side satisfies its own and has its own direction.\<close>

definition book_inv :: "OrderBook \<Rightarrow> bool" where
  "book_inv b \<longleftrightarrow>
     side_inv (bids b) \<and> \<not> is_ask (bids b) \<and> side_inv (asks b) \<and> is_ask (asks b)"

subsection \<open>The top of a book as the specification describes it\<close>

text \<open>The specification's \<^verbatim>\<open>bestN(n)\<close>: the first \<open>n\<close> prices of a side in its sort
  order, each paired with the quantity the side holds for it; fewer when the side is less
  deep. Its \<^verbatim>\<open>topN(n)\<close> is that of the bids and that of the asks.\<close>

definition spec_best_n :: "nat \<Rightarrow> SideBook \<Rightarrow> (real \<times> real) list" where
  "spec_best_n n s = map (\<lambda>p. (p, the (qty s p))) (take n (prices s))"

definition spec_top_n :: "nat \<Rightarrow> OrderBook \<Rightarrow> top_levels" where
  "spec_top_n n b = \<lparr>top_bids = spec_best_n n (bids b), top_asks = spec_best_n n (asks b)\<rparr>"

section \<open>Lists, binary search and the invariants of a side\<close>

lemma bisect_left_loop_bounds:
  "sorted a \<Longrightarrow> hi \<le> length a \<Longrightarrow> lo \<le> hi \<Longrightarrow> \<forall>i<lo. a ! i < x \<Longrightarrow>
   \<forall>i. hi \<le> i \<and> i < length a \<longrightarrow> x \<le> a ! i \<Longrightarrow>
   lo \<le> bisect_left_loop a x lo hi \<and> bisect_left_loop a x lo hi \<le> hi \<and>
         (\<forall>i<bisect_left_loop a x lo hi. a ! i < x) \<and>
         (\<forall>i. bisect_left_loop a x lo hi \<le> i \<and> i < length a \<longrightarrow> x \<le> a ! i)"
proof (induction a x lo hi rule: bisect_left_loop.induct)
  case (1 a x lo hi)
  show ?case
  proof (cases "lo < hi")
    case False
    with "1.prems" show ?thesis
      by (subst (1 2 3 4) bisect_left_loop.simps) auto
  next
    case True
    define mid where "mid = (lo + hi) div 2"
    have mid: "lo \<le> mid" "mid < hi" using True by (auto simp: mid_def)
    show ?thesis
    proof (cases "a ! mid < x")
      case lt: True
      have below: "\<forall>i<mid + 1. a ! i < x"
      proof (intro allI impI)
        fix i assume "i < mid + 1"
        then have "i \<le> mid" by simp
        with \<open>sorted a\<close> mid "1.prems"(2) have "a ! i \<le> a ! mid"
          by (auto intro: sorted_nth_mono)
        with lt show "a ! i < x" by simp
      qed
      have eq: "bisect_left_loop a x lo hi = bisect_left_loop a x (mid + 1) hi"
        using True lt by (subst bisect_left_loop.simps) (simp add: mid_def Let_def)
      have "mid + 1 \<le> bisect_left_loop a x (mid + 1) hi \<and> bisect_left_loop a x (mid + 1) hi \<le> hi \<and>
         (\<forall>i<bisect_left_loop a x (mid + 1) hi. a ! i < x) \<and>
         (\<forall>i. bisect_left_loop a x (mid + 1) hi \<le> i \<and> i < length a \<longrightarrow> x \<le> a ! i)"
        using "1.IH"(1) [OF True mid_def lt] "1.prems" below mid by simp
      with mid show ?thesis unfolding eq by auto
    next
      case ge: False
      have above: "\<forall>i. mid \<le> i \<and> i < length a \<longrightarrow> x \<le> a ! i"
      proof (intro allI impI)
        fix i assume "mid \<le> i \<and> i < length a"
        with \<open>sorted a\<close> have "a ! mid \<le> a ! i"
          by (auto intro: sorted_nth_mono)
        with ge show "x \<le> a ! i" by simp
      qed
      have eq: "bisect_left_loop a x lo hi = bisect_left_loop a x lo mid"
        using True ge by (subst bisect_left_loop.simps) (simp add: mid_def Let_def)
      have "lo \<le> bisect_left_loop a x lo mid \<and> bisect_left_loop a x lo mid \<le> mid \<and>
         (\<forall>i<bisect_left_loop a x lo mid. a ! i < x) \<and>
         (\<forall>i. bisect_left_loop a x lo mid \<le> i \<and> i < length a \<longrightarrow> x \<le> a ! i)"
        using "1.IH"(2) [OF True mid_def ge] "1.prems" above mid by simp
      with mid show ?thesis unfolding eq by auto
    qed
  qed
qed

lemma bisect_left_props:
  assumes "sorted a"
  shows "bisect_left a x \<le> length a"
    and "\<forall>i<bisect_left a x. a ! i < x"
    and "\<forall>i. bisect_left a x \<le> i \<and> i < length a \<longrightarrow> x \<le> a ! i"
  using bisect_left_loop_bounds [of a "length a" 0 x] assms
  by (simp_all add: bisect_left_def)

lemma bisect_left_Nil: "bisect_left [] x = 0"
  by (simp add: bisect_left_def bisect_left_loop.simps)

lemma bisect_left_single: "bisect_left [a] x = (if a < x then 1 else 0)"
  by (simp add: bisect_left_def bisect_left_loop.simps)

lemma set_insert_at: "set (insert_at i x a) = insert x (set a)"
proof -
  have "set (take i a) \<union> set (drop i a) = set a"
    by (metis append_take_drop_id set_append)
  then show ?thesis by (auto simp: insert_at_def)
qed

lemma insert_at_sorted_wrt:
  assumes s: "sorted_wrt R a" and r: "r \<le> length a"
    and lo: "\<forall>i<r. R (a ! i) x" and hi: "\<forall>i. r \<le> i \<and> i < length a \<longrightarrow> R x (a ! i)"
    and tr: "\<And>u v w. R u v \<Longrightarrow> R v w \<Longrightarrow> R u w"
  shows "sorted_wrt R (insert_at r x a)"
proof -
  have t: "\<forall>u\<in>set (take r a). R u x"
    using lo r by (auto simp: in_set_conv_nth)
  have d: "\<forall>v\<in>set (drop r a). R x v"
    using hi r by (auto simp: in_set_conv_nth)
  have "sorted_wrt R (take r a)" "sorted_wrt R (drop r a)"
    using s by (simp_all add: sorted_wrt_take sorted_wrt_drop)
  moreover have "\<forall>u\<in>set (take r a). \<forall>v\<in>set (drop r a). R u v"
    using t d tr by blast
  ultimately show ?thesis
    using t d by (simp add: insert_at_def sorted_wrt_append)
qed

lemma key_index_insert_sorted:
  assumes "side_sorted (is_ask s) (prices s)" "price \<notin> set (prices s)"
  shows "side_sorted (is_ask s) (insert_at (key_index s price) price (prices s))"
proof (cases "is_ask s")
  case True
  let ?a = "prices s"
  have st: "sorted_wrt (<) ?a" using assms True by (simp add: side_sorted_def)
  then have so: "sorted ?a" by (simp add: strict_sorted_iff)
  note b = bisect_left_props [OF so, of price]
  have "\<forall>i. bisect_left ?a price \<le> i \<and> i < length ?a \<longrightarrow> price < ?a ! i"
  proof (intro allI impI)
    fix i assume i: "bisect_left ?a price \<le> i \<and> i < length ?a"
    then have "price \<le> ?a ! i" using b(3) by blast
    moreover have "?a ! i \<noteq> price" using assms(2) i by (metis nth_mem)
    ultimately show "price < ?a ! i" by simp
  qed
  then have "sorted_wrt (<) (insert_at (bisect_left ?a price) price ?a)"
    using st b(1,2) by (intro insert_at_sorted_wrt) auto
  then show ?thesis using True by (simp add: side_sorted_def key_index_def)
next
  case False
  let ?a = "prices s"
  let ?n = "map uminus ?a"
  let ?r = "bisect_left ?n (- price)"
  have st: "sorted_wrt (>) ?a" using assms False by (simp add: side_sorted_def)
  then have "sorted_wrt (<) ?n" by (simp add: sorted_wrt_map)
  then have so: "sorted ?n" by (simp add: strict_sorted_iff)
  note b = bisect_left_props [OF so, of "- price"]
  have r: "?r \<le> length ?a" using b(1) by simp
  have lo: "\<forall>i<?r. ?a ! i > price"
  proof (intro allI impI)
    fix i assume "i < ?r"
    then have "?n ! i < - price" "i < length ?a" using b(2) r by auto
    then show "?a ! i > price" by simp
  qed
  have hi: "\<forall>i. ?r \<le> i \<and> i < length ?a \<longrightarrow> price > ?a ! i"
  proof (intro allI impI)
    fix i assume i: "?r \<le> i \<and> i < length ?a"
    then have "- price \<le> ?n ! i" using b(3) by simp
    then have "?a ! i \<le> price" using i by simp
    moreover have "?a ! i \<noteq> price" using assms(2) i by (metis nth_mem)
    ultimately show "price > ?a ! i" by simp
  qed
  have "sorted_wrt (>) (insert_at ?r price ?a)"
    using st r lo hi by (intro insert_at_sorted_wrt) auto
  then show ?thesis using False by (simp add: side_sorted_def key_index_def)
qed

lemma index_of_Some:
  "x \<in> set a \<Longrightarrow> \<exists>i. index_of a x = Some i \<and> i < length a \<and> pop_at i a = remove1 x a"
proof (induction a)
  case Nil
  then show ?case by simp
next
  case (Cons y ys)
  show ?case
  proof (cases "y = x")
    case True
    then show ?thesis by (simp add: pop_at_def)
  next
    case False
    with Cons obtain i where "index_of ys x = Some i" "i < length ys" "pop_at i ys = remove1 x ys"
      by auto
    with False show ?thesis by (simp add: pop_at_def)
  qed
qed

lemma side_sorted_distinct: "side_sorted a ps \<Longrightarrow> distinct ps"
  by (auto simp: side_sorted_def strict_sorted_iff sorted_wrt_map
      dest: distinct_map [THEN iffD1] split: if_splits)
     (metis distinct_rev sorted_wrt_rev strict_sorted_iff)

lemma side_sorted_remove1: "side_sorted a ps \<Longrightarrow> side_sorted a (remove1 x ps)"
proof -
  assume s: "side_sorted a ps"
  then have "distinct ps" by (rule side_sorted_distinct)
  then have "remove1 x ps = filter (\<lambda>y. y \<noteq> x) ps"
    by (simp add: distinct_remove1_removeAll removeAll_filter_not_eq) metis
  with s show ?thesis by (auto simp: side_sorted_def sorted_wrt_filter)
qed

lemma update_level_inv:
  assumes "side_inv s"
  shows "\<exists>s'. update_level s price q = Inr s' \<and> side_inv s' \<and> is_ask s' = is_ask s \<and>
           qty s' = (if q \<le> 0 then (qty s)(price := None) else (qty s)(price \<mapsto> q)) \<and>
           prices s' = (if q \<le> 0 then remove1 price (prices s)
                        else if price \<in> dom (qty s) then prices s
                        else insert_at (key_index s price) price (prices s))"
proof -
  from assms have so: "side_sorted (is_ask s) (prices s)" and dm: "set (prices s) = dom (qty s)"
    and pos: "\<And>p v. qty s p = Some v \<Longrightarrow> 0 < v"
    by (auto simp: side_inv_def)
  have di: "distinct (prices s)" using so by (rule side_sorted_distinct)
  show ?thesis
  proof (cases "q \<le> 0")
    case True
    show ?thesis
    proof (cases "price \<in> dom (qty s)")
      case in_d: True
      then have "price \<in> set (prices s)" using dm by simp
      then obtain i where i: "index_of (prices s) price = Some i"
        "pop_at i (prices s) = remove1 price (prices s)"
        using index_of_Some by blast
      have "side_inv (s\<lparr>prices := remove1 price (prices s), qty := (qty s)(price := None)\<rparr>)"
        using so dm di pos by (auto simp: side_inv_def side_sorted_remove1 split: if_splits)
      then show ?thesis using True in_d i by (simp add: update_level_def)
    next
      case out: False
      then have "price \<notin> set (prices s)" using dm by simp
      then have "remove1 price (prices s) = prices s" by (simp add: remove1_idem)
      moreover have "(qty s)(price := None) = qty s" using out by (auto simp: fun_eq_iff)
      ultimately show ?thesis using True out assms by (simp add: update_level_def)
    qed
  next
    case False
    show ?thesis
    proof (cases "price \<in> dom (qty s)")
      case True
      have "side_inv (s\<lparr>qty := (qty s)(price \<mapsto> q)\<rparr>)"
        using so dm pos True False by (auto simp: side_inv_def)
      then show ?thesis using True False by (simp add: update_level_def)
    next
      case out: False
      then have ni: "price \<notin> set (prices s)" using dm by simp
      have "side_inv (s\<lparr>prices := insert_at (key_index s price) price (prices s),
                        qty := (qty s)(price \<mapsto> q)\<rparr>)"
        using key_index_insert_sorted [OF so ni] dm pos False
        by (auto simp: side_inv_def set_insert_at)
      then show ?thesis using out False by (simp add: update_level_def Let_def)
    qed
  qed
qed

lemma side_sorted_unique:
  assumes "side_sorted a ps" "side_sorted a ps'" "set ps = set ps'"
  shows "ps = ps'"
proof (cases a)
  case True
  with assms show ?thesis by (simp add: side_sorted_def strict_sorted_equal)
next
  case False
  with assms have "sorted_wrt (<) (rev ps)" "sorted_wrt (<) (rev ps')"
    by (simp_all add: side_sorted_def sorted_wrt_rev)
  with assms(3) have "rev ps = rev ps'" by (intro strict_sorted_equal) auto
  then show ?thesis by simp
qed

lemma side_inv_unique:
  fixes s t :: SideBook
  assumes "side_inv s" "side_inv t" "is_ask s = is_ask t" "qty s = qty t"
  shows "s = t"
proof -
  have "prices s = prices t"
    using assms by (intro side_sorted_unique [of "is_ask s"]) (auto simp: side_inv_def)
  with assms show ?thesis by simp
qed

lemma new_side_inv: "side_inv (new_side a)"
  by (simp add: side_inv_def new_side_def side_sorted_def)

section \<open>Sequences of upserts\<close>

lemma update_levels_inv:
  "side_inv s \<Longrightarrow>
   \<exists>s'. update_levels s ops = Inr s' \<and> side_inv s' \<and> is_ask s' = is_ask s \<and>
        qty s' = apply_map (qty s) ops"
proof (induction ops arbitrary: s)
  case Nil
  then show ?case by (simp add: apply_map_def)
next
  case (Cons e ops)
  obtain p q where e: "e = (p, q)" by (cases e)
  from update_level_inv [OF Cons.prems, of p q] obtain s1 where
    s1: "update_level s p q = Inr s1" "side_inv s1" "is_ask s1 = is_ask s"
        "qty s1 = upsert_map (qty s) (p, q)"
    by auto
  from Cons.IH [OF s1(2)] obtain s' where
    "update_levels s1 ops = Inr s'" "side_inv s'" "is_ask s' = is_ask s1"
    "qty s' = apply_map (qty s1) ops"
    by blast
  with s1 e show ?case by (simp add: apply_map_def)
qed

text \<open>
  Claim C3. Whatever finite sequence of \<^verbatim>\<open>update_level\<close> calls is applied to a new, empty
  side, no call raises, and in the resulting side the price sequence is strictly ascending
  (asks) or strictly descending (bids), holds no price twice, holds exactly the keys of the
  quantity mapping, and every stored quantity is strictly positive.
\<close>

theorem upserts_from_empty_keep_invariants:
  "\<exists>s. update_levels (new_side a) ops = Inr s \<and> is_ask s = a \<and>
        (if a then sorted_wrt (<) (prices s) else sorted_wrt (>) (prices s)) \<and>
        distinct (prices s) \<and> set (prices s) = dom (qty s) \<and>
        (\<forall>p q. qty s p = Some q \<longrightarrow> 0 < q)"
proof -
  from update_levels_inv [OF new_side_inv, of a ops] obtain s where
    s: "update_levels (new_side a) ops = Inr s" "side_inv s" "is_ask s = is_ask (new_side a)"
    by blast
  from s(2) have "distinct (prices s)"
    by (auto simp: side_inv_def dest: side_sorted_distinct)
  with s show ?thesis
    by (auto simp: side_inv_def side_sorted_def new_side_def)
qed

theorem upserts_from_empty_keep_invariants_witness:
  "update_levels (new_side False) [(100, 1), (101, 2), (100, 0), (99, 3)] =
     Inr \<lparr>is_ask = False, prices = [101, 99], qty = [101 \<mapsto> 2, 99 \<mapsto> 3]\<rparr> \<and>
   sorted_wrt (>) [101, 99 :: real] \<and> distinct [101, 99 :: real] \<and>
   set [101, 99 :: real] = dom [101 \<mapsto> 2 :: real, 99 \<mapsto> 3]"
proof -
  let ?r = "\<lparr>is_ask = False, prices = [101, 99], qty = [101 \<mapsto> 2, 99 \<mapsto> (3::real)]\<rparr>"
  have ev: "update_levels (new_side False) [(100, 1), (101, 2), (100, 0), (99, 3)] = Inr ?r"
    by (simp add: new_side_def update_level_def key_index_def bisect_left_Nil bisect_left_single
        insert_at_def pop_at_def Let_def)
  from upserts_from_empty_keep_invariants [of False "[(100, 1), (101, 2), (100, 0), (99, 3)]"]
  obtain s where s: "update_levels (new_side False) [(100, 1), (101, 2), (100, 0), (99, 3)] = Inr s"
    "sorted_wrt (>) (prices s)" "distinct (prices s)" "set (prices s) = dom (qty s)"
    by auto
  from s(1) ev have "s = ?r" by simp
  with s(2,3,4) have "sorted_wrt (>) (prices ?r)" "distinct (prices ?r)"
    "set (prices ?r) = dom (qty ?r)"
    by blast+
  with ev show ?thesis by simp
qed

section \<open>Reading the top of a book\<close>

lemma levels_of_total:
  "set ps \<subseteq> dom d \<Longrightarrow> levels_of d ps = Inr (map (\<lambda>p. (p, the (d p))) ps)"
  by (induction ps) auto

lemma best_n_inv:
  assumes "side_inv s"
  shows "best_n s n = Inr (map (\<lambda>p. (p, the (qty s p))) (take n (prices s)))"
proof -
  have "set (take n (prices s)) \<subseteq> dom (qty s)"
    using assms set_take_subset [of n "prices s"] by (auto simp: side_inv_def)
  then show ?thesis by (simp add: best_n_def levels_of_total)
qed

lemma top10_inv:
  assumes "side_inv (bids b)" "side_inv (asks b)"
  shows "top10 b =
     Inr \<lparr>top_bids = map (\<lambda>p. (p, the (qty (bids b) p))) (take 10 (prices (bids b))),
          top_asks = map (\<lambda>p. (p, the (qty (asks b) p))) (take 10 (prices (asks b)))\<rparr>"
  using assms by (simp add: top10_def best_n_inv)

lemma levels_of_Inr:
  "levels_of d ps = Inr r \<Longrightarrow> r = map (\<lambda>p. (p, the (d p))) ps"
proof (induction ps arbitrary: r)
  case Nil
  then show ?case by simp
next
  case (Cons p ps)
  from Cons.prems obtain q r' where "d p = Some q" "levels_of d ps = Inr r'" "r = (p, q) # r'"
    by (cases "d p"; cases "levels_of d ps") auto
  with Cons.IH [of r'] show ?case by simp
qed

lemma top10_Inr:
  assumes "top10 b = Inr t"
  shows "t = spec_top_n 10 b"
proof -
  from assms obtain bs as where
    "best_n (bids b) 10 = Inr bs" "best_n (asks b) 10 = Inr as"
    "t = \<lparr>top_bids = bs, top_asks = as\<rparr>"
    by (cases "best_n (bids b) 10"; cases "best_n (asks b) 10") (auto simp: top10_def)
  then show ?thesis
    using levels_of_Inr [of "qty (bids b)" "take 10 (prices (bids b))" bs]
      levels_of_Inr [of "qty (asks b)" "take 10 (prices (asks b))" as]
    by (simp add: best_n_def spec_top_n_def spec_best_n_def)
qed

lemma top10_spec:
  "side_inv (bids b) \<Longrightarrow> side_inv (asks b) \<Longrightarrow> top10 b = Inr (spec_top_n 10 b)"
  by (simp add: top10_inv spec_top_n_def spec_best_n_def)

lemma return_top10_Inr:
  "return_top10 b = Inr (t, b') \<Longrightarrow> b' = b \<and> top10 b = Inr t \<and> t = spec_top_n 10 b"
proof -
  assume a: "return_top10 b = Inr (t, b')"
  then have "b' = b \<and> top10 b = Inr t"
    by (cases "top10 b") (simp_all add: return_top10_def)
  moreover from this have "t = spec_top_n 10 b" by (intro top10_Inr) simp
  ultimately show ?thesis by simp
qed

lemma positive_upd:
  "(\<forall>p q. m p = Some q \<longrightarrow> 0 < q) \<Longrightarrow> 0 < v \<Longrightarrow>
   (\<forall>p q. (m(k \<mapsto> v)) p = Some q \<longrightarrow> 0 < q)"
  for v :: real
  by auto

section \<open>The guards of \<^verbatim>\<open>place_limit_order\<close>\<close>

lemma place_limit_order_nonpositive:
  "q \<le> 0 \<Longrightarrow> place_limit_order b side price q = return_top10 b"
  by (simp add: place_limit_order_def)

lemma place_limit_order_unknown_side:
  "0 < q \<Longrightarrow> lower side \<notin> {''buy'', ''bid'', ''sell'', ''ask''} \<Longrightarrow>
   place_limit_order b side price q = Inl (ValueError_side, b)"
  by (simp add: place_limit_order_def)

lemma lower_hold: "lower ''Hold'' = ''hold''"
  by code_simp

lemma top10_new_book: "top10 new_book = Inr \<lparr>top_bids = [], top_asks = []\<rparr>"
  by (simp add: top10_def best_n_def new_book_def new_side_def)

text \<open>
  Claim C7, as amended. For every book, every price and every quantity above zero,
  \<^verbatim>\<open>place_limit_order\<close> with a side token whose lower-case form is none of buy, bid, sell,
  ask raises the \<^verbatim>\<open>ValueError\<close> of the side check. (With a quantity at or below zero the
  method returns before it looks at the token.)
\<close>

theorem place_limit_order_rejects_unknown_side:
  "0 < q \<Longrightarrow> lower side \<notin> {''buy'', ''bid'', ''sell'', ''ask''} \<Longrightarrow>
   \<exists>b'. place_limit_order b side price q = Inl (ValueError_side, b')"
  by (simp add: place_limit_order_unknown_side)

theorem place_limit_order_rejects_unknown_side_witness:
  "(0::real) < 1 \<and> lower ''Hold'' \<notin> {''buy'', ''bid'', ''sell'', ''ask''} \<and>
   (\<exists>b'. place_limit_order new_book ''Hold'' 100 1 = Inl (ValueError_side, b'))"
proof -
  have h: "lower ''Hold'' \<notin> {''buy'', ''bid'', ''sell'', ''ask''}"
    by (simp add: lower_hold)
  have q: "(0::real) < 1" by simp
  from place_limit_order_rejects_unknown_side [OF q h, of new_book 100] q h
  show ?thesis by blast
qed

text \<open>
  Claim C7 as the specification states it, for every quantity, fails: with quantity 0 the
  unknown token \<^verbatim>\<open>Hold\<close> is not rejected, the call returns the top of the book.
\<close>

theorem unknown_side_zero_quantity_returns:
  "lower ''Hold'' \<notin> {''buy'', ''bid'', ''sell'', ''ask''} \<and>
   place_limit_order new_book ''Hold'' 100 0 =
     Inr (\<lparr>top_bids = [], top_asks = []\<rparr>, new_book)"
  by (simp add: lower_hold place_limit_order_nonpositive return_top10_def top10_new_book)

text \<open>
  Claim C8. With a quantity at or below zero, whatever the side token and the price,
  \<^verbatim>\<open>place_limit_order\<close> is \<^verbatim>\<open>return self.top10()\<close> on the book as it stands: no exception
  of its own, and whenever it returns, the book, bids and asks, is the book it was given
  and the value is the top ten of that book: on each side the first ten prices in the
  side's order, each with its quantity. On a book whose sides satisfy their invariants it
  does return.
\<close>

theorem place_limit_order_nonpositive_is_noop:
  "q \<le> 0 \<Longrightarrow>
   place_limit_order b side price q = return_top10 b \<and>
   (\<forall>t b'. place_limit_order b side price q = Inr (t, b') \<longrightarrow>
      b' = b \<and> top10 b = Inr t \<and> t = spec_top_n 10 b) \<and>
   (side_inv (bids b) \<and> side_inv (asks b) \<longrightarrow>
      top10 b = Inr (spec_top_n 10 b) \<and>
      place_limit_order b side price q = Inr (spec_top_n 10 b, b))"
proof -
  assume "q \<le> 0"
  then have eq: "place_limit_order b side price q = return_top10 b"
    by (rule place_limit_order_nonpositive)
  have same: "\<forall>t b'. return_top10 b = Inr (t, b') \<longrightarrow>
      b' = b \<and> top10 b = Inr t \<and> t = spec_top_n 10 b"
    using return_top10_Inr by blast
  have ok: "side_inv (bids b) \<and> side_inv (asks b) \<longrightarrow>
      top10 b = Inr (spec_top_n 10 b) \<and> return_top10 b = Inr (spec_top_n 10 b, b)"
    by (simp add: return_top10_def top10_spec)
  from same ok show ?thesis unfolding eq by blast
qed

theorem place_limit_order_nonpositive_is_noop_witness:
  "(- 2::real) \<le> 0 \<and>
   side_inv \<lparr>is_ask = False, prices = [99, 98], qty = [99 \<mapsto> 2, 98 \<mapsto> 1]\<rparr> \<and>
   side_inv \<lparr>is_ask = True, prices = [100, 101, 102, 103, 104, 105, 106, 107, 108, 109, 110],
             qty = [100 \<mapsto> 2, 101 \<mapsto> 3, 102 \<mapsto> 1, 103 \<mapsto> 1, 104 \<mapsto> 1, 105 \<mapsto> 1,
                    106 \<mapsto> 1, 107 \<mapsto> 1, 108 \<mapsto> 1, 109 \<mapsto> 1, 110 \<mapsto> 4]\<rparr> \<and>
   place_limit_order
     \<lparr>bids = \<lparr>is_ask = False, prices = [99, 98], qty = [99 \<mapsto> 2, 98 \<mapsto> 1]\<rparr>,
      asks = \<lparr>is_ask = True, prices = [100, 101, 102, 103, 104, 105, 106, 107, 108, 109, 110],
               qty = [100 \<mapsto> 2, 101 \<mapsto> 3, 102 \<mapsto> 1, 103 \<mapsto> 1, 104 \<mapsto> 1, 105 \<mapsto> 1,
                      106 \<mapsto> 1, 107 \<mapsto> 1, 108 \<mapsto> 1, 109 \<mapsto> 1, 110 \<mapsto> 4]\<rparr>\<rparr>
     ''Hold'' 100 (- 2) =
   Inr (\<lparr>top_bids = [(99, 2), (98, 1)],
         top_asks = [(100, 2), (101, 3), (102, 1), (103, 1), (104, 1), (105, 1), (106, 1),
                     (107, 1), (108, 1), (109, 1)]\<rparr>,
        \<lparr>bids = \<lparr>is_ask = False, prices = [99, 98], qty = [99 \<mapsto> 2, 98 \<mapsto> 1]\<rparr>,
         asks = \<lparr>is_ask = True, prices = [100, 101, 102, 103, 104, 105, 106, 107, 108, 109, 110],
                  qty = [100 \<mapsto> 2, 101 \<mapsto> 3, 102 \<mapsto> 1, 103 \<mapsto> 1, 104 \<mapsto> 1, 105 \<mapsto> 1,
                         106 \<mapsto> 1, 107 \<mapsto> 1, 108 \<mapsto> 1, 109 \<mapsto> 1, 110 \<mapsto> 4]\<rparr>\<rparr>)"
proof -
  let ?bd = "\<lparr>is_ask = False, prices = [99, 98], qty = [99 \<mapsto> 2, 98 \<mapsto> (1::real)]\<rparr>"
  let ?as = "\<lparr>is_ask = True, prices = [100, 101, 102, 103, 104, 105, 106, 107, 108, 109, 110],
             qty = [100 \<mapsto> 2, 101 \<mapsto> 3, 102 \<mapsto> 1, 103 \<mapsto> 1, 104 \<mapsto> 1, 105 \<mapsto> 1,
                    106 \<mapsto> 1, 107 \<mapsto> 1, 108 \<mapsto> 1, 109 \<mapsto> 1, 110 \<mapsto> (4::real)]\<rparr>"
  let ?b = "\<lparr>bids = ?bd, asks = ?as\<rparr>"
  have h: "(- 2::real) \<le> 0" by simp
  have ib: "side_inv ?bd"
    by (auto simp: side_inv_def side_sorted_def split: if_splits)
  have ia: "side_inv ?as"
    unfolding side_inv_def
  proof (intro conjI)
    show "side_sorted (is_ask ?as) (prices ?as)" by (simp add: side_sorted_def)
    show "set (prices ?as) = dom (qty ?as)" by simp blast
    show "\<forall>p q. qty ?as p = Some q \<longrightarrow> 0 < q"
      by (simp only: SideBook.simps, intro positive_upd) simp_all
  qed
  have iv: "side_inv (bids ?b) \<and> side_inv (asks ?b)" using ib ia by simp
  have ev: "spec_top_n 10 ?b =
     \<lparr>top_bids = [(99, 2), (98, 1)],
      top_asks = [(100, 2), (101, 3), (102, 1), (103, 1), (104, 1), (105, 1), (106, 1),
                  (107, 1), (108, 1), (109, 1)]\<rparr>"
    by (simp add: spec_top_n_def spec_best_n_def)
  have "side_inv (bids ?b) \<and> side_inv (asks ?b) \<longrightarrow>
      top10 ?b = Inr (spec_top_n 10 ?b) \<and>
      place_limit_order ?b ''Hold'' 100 (- 2) = Inr (spec_top_n 10 ?b, ?b)"
    by (rule place_limit_order_nonpositive_is_noop
          [OF h, of ?b "''Hold''" 100, THEN conjunct2, THEN conjunct2])
  from this iv have "top10 ?b = Inr (spec_top_n 10 ?b) \<and>
      place_limit_order ?b ''Hold'' 100 (- 2) = Inr (spec_top_n 10 ?b, ?b)"
    by (rule mp)
  then have r: "place_limit_order ?b ''Hold'' 100 (- 2) = Inr (spec_top_n 10 ?b, ?b)"
    by (rule conjunct2)
  show ?thesis
    unfolding ev [symmetric]
    using h ib ia r by (intro conjI)
qed

text \<open>
  Claim C10. When \<^verbatim>\<open>place_limit_order\<close> is called with a quantity above zero and a side
  token it does not know, the exception is raised with the book exactly as it was before
  the call: both sides are untouched.
\<close>

theorem place_limit_order_unknown_side_atomic:
  "0 < q \<Longrightarrow> lower side \<notin> {''buy'', ''bid'', ''sell'', ''ask''} \<Longrightarrow>
   place_limit_order b side price q = Inl (ValueError_side, b) \<and>
   (\<forall>e b'. place_limit_order b side price q = Inl (e, b') \<longrightarrow>
      bids b' = bids b \<and> asks b' = asks b)"
  by (simp add: place_limit_order_unknown_side)

theorem place_limit_order_unknown_side_atomic_witness:
  "(0::real) < 3 \<and> lower ''Hold'' \<notin> {''buy'', ''bid'', ''sell'', ''ask''} \<and>
   place_limit_order new_book ''Hold'' 100 3 = Inl (ValueError_side, new_book)"
proof -
  have h: "lower ''Hold'' \<notin> {''buy'', ''bid'', ''sell'', ''ask''}"
    by (simp add: lower_hold)
  have q: "(0::real) < 3" by simp
  from place_limit_order_unknown_side_atomic [OF q h, of new_book 100] q h
  show ?thesis by blast
qed

section \<open>One upsert\<close>

lemma insert_sorted_sorted:
  assumes "side_sorted a ps" "p \<notin> set ps"
  shows "side_sorted a (insert_sorted a p ps)" "set (insert_sorted a p ps) = insert p (set ps)"
proof -
  show "side_sorted a (insert_sorted a p ps)"
    using assms
    by (cases a) (auto simp: side_sorted_def insert_sorted_def sorted_wrt_append sorted_wrt_filter)
  show "set (insert_sorted a p ps) = insert p (set ps)"
    using assms by (cases a) (auto simp: insert_sorted_def)
qed

lemma key_index_is_sorted_position:
  assumes "side_sorted (is_ask s) (prices s)" "p \<notin> set (prices s)"
  shows "insert_at (key_index s p) p (prices s) = insert_sorted (is_ask s) p (prices s)"
  using key_index_insert_sorted [OF assms] insert_sorted_sorted [OF assms]
  by (intro side_sorted_unique [of "is_ask s"]) (simp_all add: set_insert_at)

lemma half_tolerance: "0 < tolerance / 2" "tolerance / 2 \<le> tolerance"
  by (simp_all add: tolerance_def)

text \<open>
  Claim C2, as amended: the threshold of \<^verbatim>\<open>update_level\<close> is zero, not the tolerance of
  the crossing loop. For every side that satisfies its invariants, every price \<open>p\<close> and
  every quantity \<open>q\<close>, \<^verbatim>\<open>update_level\<close> does not raise, and: with \<open>q \<le> 0\<close> it removes the
  level at \<open>p\<close> if there is one and changes nothing otherwise; with \<open>q > 0\<close> it replaces
  the quantity if \<open>p\<close> has a level, and otherwise inserts \<open>p\<close> at its sorted position and
  records \<open>q\<close>. The resulting side satisfies the invariants again, so it holds no quantity
  at or below zero.
\<close>

theorem update_level_cases:
  assumes "side_inv s"
  shows "(q \<le> 0 \<and> p \<in> dom (qty s) \<longrightarrow>
            update_level s p q =
              Inr (s\<lparr>prices := remove1 p (prices s), qty := (qty s)(p := None)\<rparr>)) \<and>
         (q \<le> 0 \<and> p \<notin> dom (qty s) \<longrightarrow> update_level s p q = Inr s) \<and>
         (0 < q \<and> p \<in> dom (qty s) \<longrightarrow>
            update_level s p q = Inr (s\<lparr>qty := (qty s)(p \<mapsto> q)\<rparr>)) \<and>
         (0 < q \<and> p \<notin> dom (qty s) \<longrightarrow>
            update_level s p q =
              Inr (s\<lparr>prices := insert_sorted (is_ask s) p (prices s),
                     qty := (qty s)(p \<mapsto> q)\<rparr>)) \<and>
         (\<exists>s'. update_level s p q = Inr s' \<and> side_inv s' \<and>
               (\<forall>k v. qty s' k = Some v \<longrightarrow> 0 < v))"
proof -
  from assms have so: "side_sorted (is_ask s) (prices s)" and dm: "set (prices s) = dom (qty s)"
    by (auto simp: side_inv_def)
  have rm: "q \<le> 0 \<and> p \<in> dom (qty s) \<longrightarrow>
            update_level s p q =
              Inr (s\<lparr>prices := remove1 p (prices s), qty := (qty s)(p := None)\<rparr>)"
  proof (intro impI, elim conjE)
    assume "q \<le> 0" "p \<in> dom (qty s)"
    moreover from this dm obtain i where "index_of (prices s) p = Some i"
      "pop_at i (prices s) = remove1 p (prices s)"
      using index_of_Some [of p "prices s"] by auto
    ultimately show "update_level s p q =
              Inr (s\<lparr>prices := remove1 p (prices s), qty := (qty s)(p := None)\<rparr>)"
      by (simp add: update_level_def)
  qed
  have ins: "0 < q \<and> p \<notin> dom (qty s) \<longrightarrow>
            update_level s p q =
              Inr (s\<lparr>prices := insert_sorted (is_ask s) p (prices s),
                     qty := (qty s)(p \<mapsto> q)\<rparr>)"
  proof (intro impI, elim conjE)
    assume "0 < q" "p \<notin> dom (qty s)"
    moreover from this dm have "insert_at (key_index s p) p (prices s) =
        insert_sorted (is_ask s) p (prices s)"
      using key_index_is_sorted_position [OF so, of p] by simp
    ultimately show "update_level s p q =
              Inr (s\<lparr>prices := insert_sorted (is_ask s) p (prices s),
                     qty := (qty s)(p \<mapsto> q)\<rparr>)"
      by (simp add: update_level_def Let_def)
  qed
  have noop: "q \<le> 0 \<and> p \<notin> dom (qty s) \<longrightarrow> update_level s p q = Inr s"
    by (simp add: update_level_def)
  have repl: "0 < q \<and> p \<in> dom (qty s) \<longrightarrow>
            update_level s p q = Inr (s\<lparr>qty := (qty s)(p \<mapsto> q)\<rparr>)"
    by (simp add: update_level_def)
  from update_level_inv [OF assms, of p q] obtain s' where
    s': "update_level s p q = Inr s'" "side_inv s'" by blast
  then have "\<forall>k v. qty s' k = Some v \<longrightarrow> 0 < v" by (simp add: side_inv_def)
  with s' have inv: "\<exists>s'. update_level s p q = Inr s' \<and> side_inv s' \<and>
               (\<forall>k v. qty s' k = Some v \<longrightarrow> 0 < v)" by blast
  from rm noop repl ins inv show ?thesis by blast
qed

theorem update_level_cases_witness:
  "side_inv \<lparr>is_ask = True, prices = [100, 101], qty = [100 \<mapsto> 1, 101 \<mapsto> 2]\<rparr> \<and>
   update_level \<lparr>is_ask = True, prices = [100, 101], qty = [100 \<mapsto> 1, 101 \<mapsto> 2]\<rparr> (201 / 2) 3 =
     Inr \<lparr>is_ask = True, prices = [100, 201 / 2, 101],
          qty = [100 \<mapsto> 1, 101 \<mapsto> 2, 201 / 2 \<mapsto> 3]\<rparr> \<and>
   update_level \<lparr>is_ask = True, prices = [100, 101], qty = [100 \<mapsto> 1, 101 \<mapsto> 2]\<rparr> 100 0 =
     Inr \<lparr>is_ask = True, prices = [101], qty = [100 \<mapsto> 1, 101 \<mapsto> 2](100 := None)\<rparr> \<and>
   update_level \<lparr>is_ask = True, prices = [100, 101], qty = [100 \<mapsto> 1, 101 \<mapsto> 2]\<rparr> 102 (- 1) =
     Inr \<lparr>is_ask = True, prices = [100, 101], qty = [100 \<mapsto> 1, 101 \<mapsto> 2]\<rparr> \<and>
   update_level \<lparr>is_ask = True, prices = [100, 101], qty = [100 \<mapsto> 1, 101 \<mapsto> 2]\<rparr> 101 7 =
     Inr \<lparr>is_ask = True, prices = [100, 101], qty = [100 \<mapsto> 1, 101 \<mapsto> 7]\<rparr>"
proof -
  let ?s = "\<lparr>is_ask = True, prices = [100, 101], qty = [100 \<mapsto> 1, 101 \<mapsto> (2::real)]\<rparr>"
  have i: "side_inv ?s"
    by (auto simp: side_inv_def side_sorted_def split: if_splits)
  have a: "(0::real) < 3 \<and> 201 / 2 \<notin> dom (qty ?s)" by simp
  have b: "(0::real) \<le> 0 \<and> 100 \<in> dom (qty ?s)" by simp
  have c: "(- 1::real) \<le> 0 \<and> 102 \<notin> dom (qty ?s)" by simp
  have d: "(0::real) < 7 \<and> 101 \<in> dom (qty ?s)" by simp
  from update_level_cases [OF i, of 3 "201 / 2"] a
  have "update_level ?s (201 / 2) 3 =
     Inr (?s\<lparr>prices := insert_sorted (is_ask ?s) (201 / 2) (prices ?s),
             qty := (qty ?s)(201 / 2 \<mapsto> 3)\<rparr>)"
    by blast
  moreover from update_level_cases [OF i, of 0 100] b
  have "update_level ?s 100 0 =
     Inr (?s\<lparr>prices := remove1 100 (prices ?s), qty := (qty ?s)(100 := None)\<rparr>)"
    by blast
  moreover from update_level_cases [OF i, of "- 1" 102] c
  have "update_level ?s 102 (- 1) = Inr ?s"
    by blast
  moreover from update_level_cases [OF i, of 7 101] d
  have "update_level ?s 101 7 = Inr (?s\<lparr>qty := (qty ?s)(101 \<mapsto> 7)\<rparr>)"
    by blast
  ultimately show ?thesis using i by (simp add: insert_sorted_def)
qed

text \<open>
  Claim C2 as the specification states it, with the tolerance as threshold, fails: a
  quantity of half the tolerance is at or below the tolerance, and \<^verbatim>\<open>update_level\<close>
  stores it as a level.
\<close>

theorem update_level_keeps_level_below_tolerance:
  "0 < tolerance / 2 \<and> tolerance / 2 \<le> tolerance \<and>
   update_level (new_side True) 100 (tolerance / 2) =
     Inr \<lparr>is_ask = True, prices = [100], qty = [100 \<mapsto> tolerance / 2]\<rparr>"
  using half_tolerance
  by (simp add: update_level_def new_side_def key_index_def bisect_left_Nil insert_at_def)

section \<open>The notional ahead of a price\<close>

lemma bisect_right_loop_bounds:
  "sorted a \<Longrightarrow> hi \<le> length a \<Longrightarrow> lo \<le> hi \<Longrightarrow> \<forall>i<lo. a ! i \<le> x \<Longrightarrow>
   \<forall>i. hi \<le> i \<and> i < length a \<longrightarrow> x < a ! i \<Longrightarrow>
   lo \<le> bisect_right_loop a x lo hi \<and> bisect_right_loop a x lo hi \<le> hi \<and>
     (\<forall>i<bisect_right_loop a x lo hi. a ! i \<le> x) \<and>
     (\<forall>i. bisect_right_loop a x lo hi \<le> i \<and> i < length a \<longrightarrow> x < a ! i)"
proof (induction a x lo hi rule: bisect_right_loop.induct)
  case (1 a x lo hi)
  show ?case
  proof (cases "lo < hi")
    case False
    with "1.prems" show ?thesis
      by (subst (1 2 3 4) bisect_right_loop.simps) auto
  next
    case True
    define mid where "mid = (lo + hi) div 2"
    have mid: "lo \<le> mid" "mid < hi" using True by (auto simp: mid_def)
    show ?thesis
    proof (cases "x < a ! mid")
      case lt: True
      have above: "\<forall>i. mid \<le> i \<and> i < length a \<longrightarrow> x < a ! i"
      proof (intro allI impI)
        fix i assume "mid \<le> i \<and> i < length a"
        with \<open>sorted a\<close> have "a ! mid \<le> a ! i"
          by (auto intro: sorted_nth_mono)
        with lt show "x < a ! i" by simp
      qed
      have eq: "bisect_right_loop a x lo hi = bisect_right_loop a x lo mid"
        using True lt by (subst bisect_right_loop.simps) (simp add: mid_def Let_def)
      have "lo \<le> bisect_right_loop a x lo mid \<and> bisect_right_loop a x lo mid \<le> mid \<and>
         (\<forall>i<bisect_right_loop a x lo mid. a ! i \<le> x) \<and>
         (\<forall>i. bisect_right_loop a x lo mid \<le> i \<and> i < length a \<longrightarrow> x < a ! i)"
        using "1.IH"(1) [OF True mid_def lt] "1.prems" above mid by simp
      with mid show ?thesis unfolding eq by auto
    next
      case ge: False
      have below: "\<forall>i<mid + 1. a ! i \<le> x"
      proof (intro allI impI)
        fix i assume "i < mid + 1"
        then have "i \<le> mid" by simp
        with \<open>sorted a\<close> mid "1.prems"(2) have "a ! i \<le> a ! mid"
          by (auto intro: sorted_nth_mono)
        with ge show "a ! i \<le> x" by simp
      qed
      have eq: "bisect_right_loop a x lo hi = bisect_right_loop a x (mid + 1) hi"
        using True ge by (subst bisect_right_loop.simps) (simp add: mid_def Let_def)
      have "mid + 1 \<le> bisect_right_loop a x (mid + 1) hi \<and>
         bisect_right_loop a x (mid + 1) hi \<le> hi \<and>
         (\<forall>i<bisect_right_loop a x (mid + 1) hi. a ! i \<le> x) \<and>
         (\<forall>i. bisect_right_loop a x (mid + 1) hi \<le> i \<and> i < length a \<longrightarrow> x < a ! i)"
        using "1.IH"(2) [OF True mid_def ge] "1.prems" below mid by simp
      with mid show ?thesis unfolding eq by auto
    qed
  qed
qed

lemma take_bisect_right:
  assumes "sorted a"
  shows "take (bisect_right a x) a = filter (\<lambda>p. p \<le> x) a"
proof -
  let ?r = "bisect_right a x"
  from bisect_right_loop_bounds [of a "length a" 0 x] assms
  have r: "?r \<le> length a" and lo: "\<forall>i<?r. a ! i \<le> x"
    and hi: "\<forall>i. ?r \<le> i \<and> i < length a \<longrightarrow> x < a ! i"
    by (simp_all add: bisect_right_def)
  have "\<forall>u\<in>set (take ?r a). u \<le> x" using lo r by (auto simp: in_set_conv_nth)
  then have t: "filter (\<lambda>p. p \<le> x) (take ?r a) = take ?r a" by simp
  have "\<forall>v\<in>set (drop ?r a). \<not> v \<le> x"
  proof
    fix v assume "v \<in> set (drop ?r a)"
    then obtain i where i: "i < length a - ?r" "v = a ! (?r + i)"
      by (auto simp: in_set_conv_nth)
    then have "?r \<le> ?r + i \<and> ?r + i < length a" by simp
    with hi have "x < a ! (?r + i)" by blast
    with i show "\<not> v \<le> x" by simp
  qed
  then have d: "filter (\<lambda>p. p \<le> x) (drop ?r a) = []" by simp
  have "filter (\<lambda>p. p \<le> x) a = filter (\<lambda>p. p \<le> x) (take ?r a @ drop ?r a)" by simp
  also have "\<dots> = take ?r a" using t d by (simp del: append_take_drop_id)
  finally show ?thesis by simp
qed

lemma foldl_add_sum_list:
  "foldl (\<lambda>tot p. tot + f p) acc ps = acc + sum_list (map f ps)"
  for acc :: real
  by (induction ps arbitrary: acc) simp_all

lemma bid_scan_takeWhile:
  "bid_scan d t tot ps =
     tot + sum_list (map (\<lambda>p. p * dict_get d p 0) (takeWhile (\<lambda>p. p \<ge> t) ps))"
  by (induction ps arbitrary: tot) simp_all

lemma takeWhile_filter_descending:
  "sorted_wrt (>) ps \<Longrightarrow> takeWhile (\<lambda>p. p \<ge> t) ps = filter (\<lambda>p. p \<ge> t) ps"
  for t :: real
proof (induction ps)
  case Nil
  then show ?case by simp
next
  case (Cons p ps)
  show ?case
  proof (cases "p \<ge> t")
    case True
    with Cons show ?thesis by simp
  next
    case False
    with Cons.prems have "\<forall>u\<in>set ps. \<not> u \<ge> t" by auto
    then have "filter (\<lambda>p. p \<ge> t) ps = []" by simp
    with False show ?thesis by simp
  qed
qed

lemma sum_list_prices:
  assumes "distinct ps"
  shows "sum_list (map (\<lambda>p. p * dict_get d p 0) (filter P ps)) =
         (\<Sum>p\<in>{p \<in> set ps. P p}. p * dict_get d p 0)"
proof -
  have "sum_list (map (\<lambda>p. p * dict_get d p 0) (filter P ps)) =
        (\<Sum>p\<in>set (filter P ps). p * dict_get d p 0)"
    using assms by (simp add: sum_list_distinct_conv_sum_set)
  also have "set (filter P ps) = {p \<in> set ps. P p}" by auto
  finally show ?thesis .
qed

lemma notional_ahead_sum_prices:
  assumes "side_sorted (is_ask s) (prices s)"
  shows "notional_ahead s t =
         (\<Sum>p\<in>{p \<in> set (prices s). if is_ask s then p \<le> t else p \<ge> t}.
            p * dict_get (qty s) p 0)"
proof (cases "prices s = []")
  case True
  then show ?thesis by (simp add: notional_ahead_def)
next
  case ne: False
  have d: "distinct (prices s)" using assms by (rule side_sorted_distinct)
  show ?thesis
  proof (cases "is_ask s")
    case True
    with assms have "sorted_wrt (<) (prices s)" by (simp add: side_sorted_def)
    then have so: "sorted (prices s)" by (simp add: strict_sorted_iff)
    let ?r = "bisect_right (prices s) t"
    have tk: "take ?r (prices s) = filter (\<lambda>p. p \<le> t) (prices s)"
      using so by (rule take_bisect_right)
    have "notional_ahead s t =
          sum_list (map (\<lambda>p. p * dict_get (qty s) p 0) (take ?r (prices s)))"
    proof (cases "?r = 0")
      case True
      with ne show ?thesis using \<open>is_ask s\<close> by (simp add: notional_ahead_def)
    next
      case False
      then have "nat (int ?r - 1 + 1) = ?r" "\<not> int ?r - 1 < 0" by simp_all
      with ne show ?thesis using \<open>is_ask s\<close>
        by (simp add: notional_ahead_def Let_def foldl_add_sum_list)
    qed
    then show ?thesis
      using True sum_list_prices [OF d, of "qty s" "\<lambda>p. p \<le> t"] tk by simp
  next
    case False
    with assms have "sorted_wrt (>) (prices s)" by (simp add: side_sorted_def)
    then have "takeWhile (\<lambda>p. p \<ge> t) (prices s) = filter (\<lambda>p. p \<ge> t) (prices s)"
      by (rule takeWhile_filter_descending)
    then show ?thesis
      using False ne sum_list_prices [OF d, of "qty s" "\<lambda>p. p \<ge> t"]
      by (simp add: notional_ahead_def bid_scan_takeWhile)
  qed
qed

lemma notional_ahead_sum:
  assumes "side_inv s"
  shows "notional_ahead s t =
         (\<Sum>p\<in>{p \<in> dom (qty s). if is_ask s then p \<le> t else p \<ge> t}. p * the (qty s p))"
proof -
  from assms have so: "side_sorted (is_ask s) (prices s)" and dm: "set (prices s) = dom (qty s)"
    by (auto simp: side_inv_def)
  have "(\<Sum>p\<in>{p \<in> dom (qty s). if is_ask s then p \<le> t else p \<ge> t}. p * dict_get (qty s) p 0) =
        (\<Sum>p\<in>{p \<in> dom (qty s). if is_ask s then p \<le> t else p \<ge> t}. p * the (qty s p))"
    by (rule sum.cong) (auto simp: dict_get_def)
  with notional_ahead_sum_prices [OF so, of t] dm show ?thesis by simp
qed

lemma notional_ahead_example:
  "notional_ahead \<lparr>is_ask = True, prices = [100, 101, 103],
                   qty = [100 \<mapsto> 1, 101 \<mapsto> 2, 103 \<mapsto> 5]\<rparr> 103 = 817"
  "notional_ahead \<lparr>is_ask = True, prices = [100, 101, 103],
                   qty = [100 \<mapsto> 1, 101 \<mapsto> 2, 103 \<mapsto> 5]\<rparr> (201 / 2) = 100"
  by (simp_all add: notional_ahead_def bisect_right_def bisect_right_loop.simps Let_def
      dict_get_def)

text \<open>
  Claim C4. On a side whose price sequence is strictly monotonic in the side's direction,
  \<^verbatim>\<open>notional_ahead\<close> of a threshold \<open>t\<close> is the sum of price times quantity over exactly
  the levels whose price is at most \<open>t\<close> on an ask side and at least \<open>t\<close> on a bid side;
  when the side satisfies all its invariants these are the keys of the quantity mapping
  with their quantities. On a side without prices it is 0. For the ask side
  \<open>{100: 1, 101: 2, 103: 5}\<close> the notional ahead of 103 is 817 and that of 100.5 is 100.
\<close>

theorem notional_ahead_sums_better_levels:
  "(side_sorted (is_ask s) (prices s) \<longrightarrow>
      notional_ahead s t =
        (\<Sum>p\<in>{p \<in> set (prices s). if is_ask s then p \<le> t else p \<ge> t}.
           p * dict_get (qty s) p 0)) \<and>
   (side_inv s \<longrightarrow>
      notional_ahead s t =
        (\<Sum>p\<in>{p \<in> dom (qty s). if is_ask s then p \<le> t else p \<ge> t}. p * the (qty s p))) \<and>
   (prices s = [] \<longrightarrow> notional_ahead s t = 0) \<and>
   notional_ahead \<lparr>is_ask = True, prices = [100, 101, 103],
                   qty = [100 \<mapsto> 1, 101 \<mapsto> 2, 103 \<mapsto> 5]\<rparr> 103 = 817 \<and>
   notional_ahead \<lparr>is_ask = True, prices = [100, 101, 103],
                   qty = [100 \<mapsto> 1, 101 \<mapsto> 2, 103 \<mapsto> 5]\<rparr> (201 / 2) = 100"
proof -
  have "prices s = [] \<longrightarrow> notional_ahead s t = 0"
    by (simp add: notional_ahead_def)
  then show ?thesis
    using notional_ahead_sum_prices [of s t] notional_ahead_sum [of s t] notional_ahead_example
    by blast
qed

theorem notional_ahead_sums_better_levels_witness:
  "side_sorted False [101, 100] \<and>
   side_inv \<lparr>is_ask = False, prices = [101, 100], qty = [100 \<mapsto> 1, 101 \<mapsto> 2]\<rparr> \<and>
   notional_ahead \<lparr>is_ask = False, prices = [101, 100], qty = [100 \<mapsto> 1, 101 \<mapsto> 2]\<rparr> 101 =
     (\<Sum>p\<in>{p \<in> {101, 100}. p \<ge> 101}. p * dict_get [100 \<mapsto> 1, 101 \<mapsto> (2::real)] p 0) \<and>
   notional_ahead \<lparr>is_ask = False, prices = [101, 100], qty = [100 \<mapsto> 1, 101 \<mapsto> 2]\<rparr> 101 =
     (\<Sum>p\<in>{p \<in> dom [100 \<mapsto> 1, 101 \<mapsto> (2::real)]. p \<ge> 101}.
        p * the ([100 \<mapsto> 1, 101 \<mapsto> 2] p)) \<and>
   notional_ahead \<lparr>is_ask = False, prices = [101, 100], qty = [100 \<mapsto> 1, 101 \<mapsto> 2]\<rparr> 101 = 202 \<and>
   prices (new_side True) = [] \<and> notional_ahead (new_side True) 5 = 0"
proof -
  let ?s = "\<lparr>is_ask = False, prices = [101, 100], qty = [100 \<mapsto> 1, 101 \<mapsto> (2::real)]\<rparr>"
  have o: "side_sorted (is_ask ?s) (prices ?s)" by (simp add: side_sorted_def)
  have i: "side_inv ?s"
    by (auto simp: side_inv_def side_sorted_def split: if_splits)
  have e: "prices (new_side True) = []" by (simp add: new_side_def)
  have v: "notional_ahead ?s 101 = 202"
    by (simp add: notional_ahead_def dict_get_def)
  from notional_ahead_sums_better_levels [of ?s 101] o
  have a: "notional_ahead ?s 101 =
     (\<Sum>p\<in>{p \<in> set (prices ?s). if is_ask ?s then p \<le> 101 else p \<ge> 101}.
        p * dict_get (qty ?s) p 0)"
    by blast
  from notional_ahead_sums_better_levels [of ?s 101] i
  have b: "notional_ahead ?s 101 =
     (\<Sum>p\<in>{p \<in> dom (qty ?s). if is_ask ?s then p \<le> 101 else p \<ge> 101}. p * the (qty ?s p))"
    by blast
  from notional_ahead_sums_better_levels [of "new_side True" 5] e
  have c: "notional_ahead (new_side True) 5 = 0" by blast
  from o have o': "side_sorted False [101, 100::real]" by simp
  from a have a': "notional_ahead ?s 101 =
     (\<Sum>p\<in>{p \<in> {101, 100}. p \<ge> 101}. p * dict_get [100 \<mapsto> 1, 101 \<mapsto> (2::real)] p 0)"
    by simp
  from b have b': "notional_ahead ?s 101 =
     (\<Sum>p\<in>{p \<in> dom [100 \<mapsto> 1, 101 \<mapsto> (2::real)]. p \<ge> 101}.
        p * the ([100 \<mapsto> 1, 101 \<mapsto> 2] p))"
    by simp
  from o' i a' b' v e c show ?thesis by blast
qed

section \<open>Snapshot, diff and their merge\<close>

lemma apply_map_snoc: "apply_map m (xs @ [x]) = upsert_map (apply_map m xs) x"
  by (simp add: apply_map_def)

lemma apply_map_filter:
  "apply_map m (filter (\<lambda>l. fst l \<noteq> p) S) = (apply_map m S)(p := m p)"
proof (induction S rule: rev_induct)
  case Nil
  then show ?case by (simp add: apply_map_def)
next
  case (snoc x xs)
  obtain a b where x: "x = (a, b)" by (cases x)
  show ?case
  proof (cases "a = p")
    case True
    with snoc x show ?thesis by (auto simp: apply_map_snoc fun_eq_iff)
  next
    case False
    with snoc x show ?thesis by (auto simp: apply_map_snoc fun_eq_iff)
  qed
qed

lemma apply_map_replace:
  assumes "0 < q"
  shows "apply_map m (map (\<lambda>l. if fst l = p then (p, q) else l) S) =
         (apply_map m S)(p := if p \<in> fst ` set S then Some q else m p)"
proof (induction S rule: rev_induct)
  case Nil
  then show ?case by (simp add: apply_map_def)
next
  case (snoc x xs)
  obtain a b where x: "x = (a, b)" by (cases x)
  show ?case
  proof (cases "a = p")
    case True
    with snoc x assms show ?thesis by (auto simp: apply_map_snoc fun_eq_iff)
  next
    case False
    with snoc x show ?thesis by (auto simp: apply_map_snoc fun_eq_iff)
  qed
qed

lemma apply_map_merge_level:
  "apply_map Map.empty (merge_level S e) = upsert_map (apply_map Map.empty S) e"
proof -
  obtain p q where e: "e = (p, q)" by (cases e)
  show ?thesis
  proof (cases "q \<le> 0")
    case True
    with e show ?thesis by (simp add: apply_map_filter)
  next
    case False
    then have q: "0 < q" by simp
    show ?thesis
    proof (cases "p \<in> fst ` set S")
      case True
      with e q show ?thesis by (simp add: apply_map_replace)
    next
      case False
      with e q show ?thesis by (simp add: apply_map_snoc)
    qed
  qed
qed

lemma apply_map_merge_levels:
  "apply_map Map.empty (merge_levels S D) = apply_map (apply_map Map.empty S) D"
proof (induction D arbitrary: S)
  case Nil
  then show ?case by (simp add: merge_levels_def apply_map_def)
next
  case (Cons e D)
  have "apply_map Map.empty (merge_levels S (e # D)) =
        apply_map Map.empty (merge_levels (merge_level S e) D)"
    by (simp add: merge_levels_def)
  also have "\<dots> = apply_map (apply_map Map.empty (merge_level S e)) D"
    by (rule Cons.IH)
  also have "\<dots> = apply_map (upsert_map (apply_map Map.empty S) e) D"
    by (simp only: apply_map_merge_level)
  finally show ?case by (simp add: apply_map_def)
qed

lemma apply_diff_inv:
  assumes "side_inv (bids b)" "side_inv (asks b)"
  shows "\<exists>sb sa. apply_diff b bid_levels ask_levels = Inr (b\<lparr>bids := sb, asks := sa\<rparr>) \<and>
           side_inv sb \<and> is_ask sb = is_ask (bids b) \<and>
           qty sb = apply_map (qty (bids b)) bid_levels \<and>
           side_inv sa \<and> is_ask sa = is_ask (asks b) \<and>
           qty sa = apply_map (qty (asks b)) ask_levels"
proof -
  from update_levels_inv [OF assms(1), of bid_levels] obtain sb where
    sb: "update_levels (bids b) bid_levels = Inr sb" "side_inv sb"
        "is_ask sb = is_ask (bids b)" "qty sb = apply_map (qty (bids b)) bid_levels"
    by blast
  from update_levels_inv [OF assms(2), of ask_levels] obtain sa where
    sa: "update_levels (asks b) ask_levels = Inr sa" "side_inv sa"
        "is_ask sa = is_ask (asks b)" "qty sa = apply_map (qty (asks b)) ask_levels"
    by blast
  have "apply_diff b bid_levels ask_levels = Inr (b\<lparr>bids := sb, asks := sa\<rparr>)"
    using sb(1) sa(1) by (simp add: apply_diff_def)
  with sb sa show ?thesis by blast
qed

lemma apply_snapshot_inv:
  "\<exists>sb sa. apply_snapshot b bid_levels ask_levels = Inr (b\<lparr>bids := sb, asks := sa\<rparr>) \<and>
           side_inv sb \<and> \<not> is_ask sb \<and> qty sb = apply_map Map.empty bid_levels \<and>
           side_inv sa \<and> is_ask sa \<and> qty sa = apply_map Map.empty ask_levels"
proof -
  from update_levels_inv [OF new_side_inv, of False bid_levels] obtain sb where
    sb: "update_levels (new_side False) bid_levels = Inr sb" "side_inv sb"
        "is_ask sb = is_ask (new_side False)" "qty sb = apply_map (qty (new_side False)) bid_levels"
    by blast
  from update_levels_inv [OF new_side_inv, of True ask_levels] obtain sa where
    sa: "update_levels (new_side True) ask_levels = Inr sa" "side_inv sa"
        "is_ask sa = is_ask (new_side True)" "qty sa = apply_map (qty (new_side True)) ask_levels"
    by blast
  have "apply_snapshot b bid_levels ask_levels = Inr (b\<lparr>bids := sb, asks := sa\<rparr>)"
    using sb(1) sa(1) by (simp add: apply_snapshot_def)
  moreover have "\<not> is_ask sb" "is_ask sa" "qty sb = apply_map Map.empty bid_levels"
    "qty sa = apply_map Map.empty ask_levels"
    using sb sa by (simp_all add: new_side_def)
  ultimately show ?thesis using sb(2) sa(2) by blast
qed

text \<open>
  Claim C5. For all snapshot batches \<open>Sb\<close>, \<open>Sa\<close> and diff batches \<open>Db\<close>, \<open>Da\<close>:
  \<^verbatim>\<open>apply_snapshot\<close> of the snapshot followed by \<^verbatim>\<open>apply_diff\<close> of the diff raises nowhere
  and leaves the book in exactly the state that one \<^verbatim>\<open>apply_snapshot\<close> of the
  level-by-level merge of the two produces, whatever the book held before.
\<close>

theorem snapshot_then_diff_is_snapshot_of_merge:
  fixes b b' :: OrderBook
  shows "\<exists>b1 b2. apply_snapshot b Sb Sa = Inr b1 \<and> apply_diff b1 Db Da = Inr b2 \<and>
           apply_snapshot b' (merge_levels Sb Db) (merge_levels Sa Da) = Inr b2"
proof -
  from apply_snapshot_inv [of b Sb Sa] obtain sb sa where
    s: "apply_snapshot b Sb Sa = Inr (b\<lparr>bids := sb, asks := sa\<rparr>)"
       "side_inv sb" "\<not> is_ask sb" "qty sb = apply_map Map.empty Sb"
       "side_inv sa" "is_ask sa" "qty sa = apply_map Map.empty Sa"
    by blast
  let ?b1 = "b\<lparr>bids := sb, asks := sa\<rparr>"
  from apply_diff_inv [of ?b1 Db Da] s obtain db da where
    d: "apply_diff ?b1 Db Da = Inr (?b1\<lparr>bids := db, asks := da\<rparr>)"
       "side_inv db" "\<not> is_ask db" "qty db = apply_map (apply_map Map.empty Sb) Db"
       "side_inv da" "is_ask da" "qty da = apply_map (apply_map Map.empty Sa) Da"
    by auto
  from apply_snapshot_inv [of b' "merge_levels Sb Db" "merge_levels Sa Da"] obtain mb ma where
    m: "apply_snapshot b' (merge_levels Sb Db) (merge_levels Sa Da) =
          Inr (b'\<lparr>bids := mb, asks := ma\<rparr>)"
       "side_inv mb" "\<not> is_ask mb" "qty mb = apply_map Map.empty (merge_levels Sb Db)"
       "side_inv ma" "is_ask ma" "qty ma = apply_map Map.empty (merge_levels Sa Da)"
    by blast
  have "mb = db"
    using m d by (intro side_inv_unique) (simp_all add: apply_map_merge_levels)
  moreover have "ma = da"
    using m d by (intro side_inv_unique) (simp_all add: apply_map_merge_levels)
  ultimately have "b'\<lparr>bids := mb, asks := ma\<rparr> = ?b1\<lparr>bids := db, asks := da\<rparr>"
    by simp
  with s(1) d(1) m(1) show ?thesis by simp
qed

theorem snapshot_then_diff_is_snapshot_of_merge_witness:
  "merge_levels [(100, 2), (101, 3)] [(101, 1), (102, 4), (100, 0)] = [(101, 1), (102, 4)] \<and>
   (\<exists>b1 b2. apply_snapshot new_book [(99, 1)] [(100, 2), (101, 3)] = Inr b1 \<and>
      apply_diff b1 [(99, 0), (98, 2)] [(101, 1), (102, 4), (100, 0)] = Inr b2 \<and>
      apply_snapshot new_book (merge_levels [(99, 1)] [(99, 0), (98, 2)])
        (merge_levels [(100, 2), (101, 3)] [(101, 1), (102, 4), (100, 0)]) = Inr b2)"
proof -
  have "merge_levels [(100, 2), (101, 3)] [(101, 1), (102, 4), (100, 0)] = [(101, 1), (102, 4)]"
    by (simp add: merge_levels_def)
  then show ?thesis
    using snapshot_then_diff_is_snapshot_of_merge
      [of new_book "[(99, 1)]" "[(100, 2), (101, 3)]" "[(99, 0), (98, 2)]"
          "[(101, 1), (102, 4), (100, 0)]" new_book]
    by blast
qed

section \<open>Replaying the stream\<close>

lemma applied_rows_Nil: "applied_rows symbol h [] = []"
  by (simp add: applied_rows_def)

lemma applied_rows_Cons:
  "applied_rows symbol h (r # rs) =
     (if row_symbol r \<noteq> symbol then applied_rows symbol h rs
      else if row_time r < h then r # applied_rows symbol h rs
      else [r])"
  by (simp add: applied_rows_def Let_def)

lemma build_loop_seen:
  "build_loop symbol h b True rows = apply_diffs b (applied_rows symbol h rows)"
proof (induction rows arbitrary: b)
  case Nil
  then show ?case by (simp add: applied_rows_Nil)
next
  case (Cons r rows)
  show ?case
  proof (cases "row_symbol r = symbol")
    case False
    with Cons show ?thesis by (simp add: applied_rows_Cons)
  next
    case True
    show ?thesis
    proof (cases "apply_diff b (row_bids r) (row_asks r)")
      case (Inl err)
      with True show ?thesis by (simp add: applied_rows_Cons)
    next
      case (Inr b')
      with True Cons [of b'] show ?thesis
        by (simp add: applied_rows_Cons not_less)
    qed
  qed
qed

lemma build_loop_replay:
  "build_loop symbol h b False rows = replay b (applied_rows symbol h rows)"
proof (induction rows)
  case Nil
  then show ?case by (simp add: applied_rows_Nil replay_def)
next
  case (Cons r rows)
  show ?case
  proof (cases "row_symbol r = symbol")
    case False
    with Cons show ?thesis by (simp add: applied_rows_Cons)
  next
    case True
    show ?thesis
    proof (cases "apply_snapshot b (row_bids r) (row_asks r)")
      case (Inl err)
      with True show ?thesis by (simp add: applied_rows_Cons replay_def)
    next
      case (Inr b')
      with True build_loop_seen [of symbol h b' rows] show ?thesis
        by (simp add: applied_rows_Cons replay_def not_less)
    qed
  qed
qed

lemma apply_diffs_inv:
  "side_inv (bids b) \<Longrightarrow> side_inv (asks b) \<Longrightarrow>
   \<exists>b'. apply_diffs b rs = Inr b' \<and> side_inv (bids b') \<and> side_inv (asks b')"
proof (induction rs arbitrary: b)
  case Nil
  then show ?case by simp
next
  case (Cons r rs)
  from apply_diff_inv [OF Cons.prems, of "row_bids r" "row_asks r"] obtain b1 where
    b1: "apply_diff b (row_bids r) (row_asks r) = Inr b1" "side_inv (bids b1)" "side_inv (asks b1)"
    by auto
  from Cons.IH [OF b1(2,3)] b1(1) show ?case by simp
qed

lemma replay_inv:
  assumes "rs \<noteq> []"
  shows "\<exists>b'. replay b rs = Inr b' \<and> side_inv (bids b') \<and> side_inv (asks b')"
proof -
  from assms obtain r rest where rs: "rs = r # rest" by (cases rs) auto
  from apply_snapshot_inv [of b "row_bids r" "row_asks r"] obtain b1 where
    b1: "apply_snapshot b (row_bids r) (row_asks r) = Inr b1" "side_inv (bids b1)" "side_inv (asks b1)"
    by auto
  from apply_diffs_inv [OF b1(2,3), of rest] b1(1) rs show ?thesis
    by (simp add: replay_def)
qed

lemma book_of_store:
  "(fst (book_of e symbol))\<lparr>books := (books (fst (book_of e symbol)))(symbol \<mapsto> b)\<rparr> =
   e\<lparr>books := (books e)(symbol \<mapsto> b)\<rparr>"
  by (simp add: book_of_def split: option.splits)

lemma build_until_unfold:
  "build_until e rows symbol h =
     (case replay (snd (book_of e symbol)) (applied_rows symbol h rows) of
        Inl (err, book') \<Rightarrow> Inl (err, e\<lparr>books := (books e)(symbol \<mapsto> book')\<rparr>)
      | Inr book' \<Rightarrow>
          (case top10 book' of
             Inl err \<Rightarrow> Inl (err, e\<lparr>books := (books e)(symbol \<mapsto> book')\<rparr>)
           | Inr t \<Rightarrow> Inr (t, e\<lparr>books := (books e)(symbol \<mapsto> book')\<rparr>)))"
proof -
  obtain e1 book where eb: "book_of e symbol = (e1, book)" by (cases "book_of e symbol")
  have st: "\<And>b. e1\<lparr>books := (books e1)(symbol \<mapsto> b)\<rparr> = e\<lparr>books := (books e)(symbol \<mapsto> b)\<rparr>"
    using book_of_store [of e symbol] eb by simp
  show ?thesis
    by (simp add: build_until_def eb build_loop_replay st Let_def split: sum.splits prod.splits)
qed

lemma applied_rows_boundary:
  assumes "map row_time (filter (\<lambda>r. row_symbol r = symbol) rows) = [1, 2, 3, 5]"
  shows "applied_rows symbol 4 rows = filter (\<lambda>r. row_symbol r = symbol) rows"
proof -
  from assms obtain r1 r2 r3 r5 where
    q: "filter (\<lambda>r. row_symbol r = symbol) rows = [r1, r2, r3, r5]"
       "row_time r1 = 1" "row_time r2 = 2" "row_time r3 = 3" "row_time r5 = 5"
    by (auto simp: map_eq_Cons_conv)
  then show ?thesis by (simp add: applied_rows_def Let_def)
qed

lemma build_until_example:
  "build_until \<lparr>path = ''book.csv'', books = Map.empty\<rparr>
      [\<lparr>row_symbol = ''BTC/USD'', row_time = 1, row_bids = [(99, 1)], row_asks = [(101, 1)]\<rparr>,
       \<lparr>row_symbol = ''ETH/USD'', row_time = 1, row_bids = [(9, 1)], row_asks = [(11, 1)]\<rparr>,
       \<lparr>row_symbol = ''BTC/USD'', row_time = 2, row_bids = [(99, 0)], row_asks = []\<rparr>,
       \<lparr>row_symbol = ''BTC/USD'', row_time = 3, row_bids = [(98, 2)], row_asks = []\<rparr>,
       \<lparr>row_symbol = ''BTC/USD'', row_time = 5, row_bids = [], row_asks = [(102, 4)]\<rparr>,
       \<lparr>row_symbol = ''BTC/USD'', row_time = 6, row_bids = [(97, 7)], row_asks = [(101, 0)]\<rparr>]
      ''BTC/USD'' 4 =
   Inr (\<lparr>top_bids = [(98, 2)], top_asks = [(101, 1), (102, 4)]\<rparr>,
        \<lparr>path = ''book.csv'',
         books = [''BTC/USD'' \<mapsto>
           \<lparr>bids = \<lparr>is_ask = False, prices = [98], qty = [98 \<mapsto> 2]\<rparr>,
            asks = \<lparr>is_ask = True, prices = [101, 102], qty = [101 \<mapsto> 1, 102 \<mapsto> 4]\<rparr>\<rparr>]\<rparr>)"
  by (simp add: build_until_def book_of_def new_book_def new_side_def apply_snapshot_def
      apply_diff_def update_level_def key_index_def bisect_left_Nil bisect_left_single
      insert_at_def pop_at_def top10_def best_n_def Let_def)

lemma build_until_returns:
  assumes "build_until e rows symbol h = Inr (t, e')"
  shows "\<exists>book'. replay (snd (book_of e symbol)) (applied_rows symbol h rows) = Inr book' \<and>
           t = spec_top_n 10 book' \<and> e' = e\<lparr>books := (books e)(symbol \<mapsto> book')\<rparr>"
proof (cases "replay (snd (book_of e symbol)) (applied_rows symbol h rows)")
  case (Inl x)
  with assms show ?thesis by (cases x) (simp add: build_until_unfold)
next
  case (Inr book')
  show ?thesis
  proof (cases "top10 book'")
    case (Inl err)
    with Inr assms show ?thesis by (simp add: build_until_unfold)
  next
    case r: (Inr t')
    with Inr assms have "t = t'" "e' = e\<lparr>books := (books e)(symbol \<mapsto> book')\<rparr>"
      by (simp_all add: build_until_unfold)
    moreover from r have "t' = spec_top_n 10 book'" by (rule top10_Inr)
    ultimately show ?thesis using Inr by simp
  qed
qed

lemma build_until_applies_spec:
  assumes "applied_rows symbol h rows \<noteq> []"
  shows "\<exists>book'. replay (snd (book_of e symbol)) (applied_rows symbol h rows) = Inr book' \<and>
           side_inv (bids book') \<and> side_inv (asks book') \<and>
           top10 book' = Inr (spec_top_n 10 book') \<and>
           build_until e rows symbol h =
             Inr (spec_top_n 10 book', e\<lparr>books := (books e)(symbol \<mapsto> book')\<rparr>)"
proof -
  from replay_inv [OF assms, of "snd (book_of e symbol)"] obtain book' where
    b: "replay (snd (book_of e symbol)) (applied_rows symbol h rows) = Inr book'"
       "side_inv (bids book')" "side_inv (asks book')"
    by blast
  have t: "top10 book' = Inr (spec_top_n 10 book')" using b(2,3) by (rule top10_spec)
  with b(1) have "build_until e rows symbol h =
      Inr (spec_top_n 10 book', e\<lparr>books := (books e)(symbol \<mapsto> book')\<rparr>)"
    by (simp add: build_until_unfold)
  with b t show ?thesis by blast
qed

lemma replay_example:
  "replay new_book
     (applied_rows ''BTC/USD'' 4
        [\<lparr>row_symbol = ''BTC/USD'', row_time = 1, row_bids = [(99, 1)], row_asks = [(101, 1)]\<rparr>,
       \<lparr>row_symbol = ''ETH/USD'', row_time = 1, row_bids = [(9, 1)], row_asks = [(11, 1)]\<rparr>,
       \<lparr>row_symbol = ''BTC/USD'', row_time = 2, row_bids = [(99, 0)], row_asks = []\<rparr>,
       \<lparr>row_symbol = ''BTC/USD'', row_time = 3, row_bids = [(98, 2)], row_asks = []\<rparr>,
       \<lparr>row_symbol = ''BTC/USD'', row_time = 5, row_bids = [], row_asks = [(102, 4)]\<rparr>,
       \<lparr>row_symbol = ''BTC/USD'', row_time = 6, row_bids = [(97, 7)], row_asks = [(101, 0)]\<rparr>]) =
   Inr \<lparr>bids = \<lparr>is_ask = False, prices = [98], qty = [98 \<mapsto> 2]\<rparr>,
          asks = \<lparr>is_ask = True, prices = [101, 102], qty = [101 \<mapsto> 1, 102 \<mapsto> 4]\<rparr>\<rparr>"
  by (simp add: applied_rows_def replay_def new_book_def new_side_def apply_snapshot_def
      apply_diff_def update_level_def key_index_def bisect_left_Nil bisect_left_single
      insert_at_def pop_at_def Let_def)

text \<open>
  Claim C6. \<^verbatim>\<open>build_until\<close> applies, of the rows of the requested symbol, the first as a
  snapshot and every later one as a diff, up to and including the first row whose
  timestamp is at or above the horizon, or to the end of the stream. Whenever it returns,
  the registry holds the resulting book under the symbol and the value returned is the top
  ten of that book: on each side the first ten prices in the side's order, each with its
  quantity. When at least one row is applied nothing raises. When the rows of the symbol
  have the timestamps 1, 2, 3, 5 and the horizon is 4, all four rows are applied.
\<close>

theorem build_until_replays_stream:
  "build_loop symbol h book False rows = replay book (applied_rows symbol h rows) \<and>
   (applied_rows symbol h rows \<noteq> [] \<longrightarrow>
      (\<exists>book'. replay (snd (book_of e symbol)) (applied_rows symbol h rows) = Inr book' \<and>
         side_inv (bids book') \<and> side_inv (asks book') \<and>
         top10 book' = Inr (spec_top_n 10 book') \<and>
         build_until e rows symbol h =
           Inr (spec_top_n 10 book', e\<lparr>books := (books e)(symbol \<mapsto> book')\<rparr>))) \<and>
   (applied_rows symbol h rows = [] \<longrightarrow>
      build_until e rows symbol h =
        (case top10 (snd (book_of e symbol)) of
           Inl err \<Rightarrow> Inl (err, fst (book_of e symbol))
         | Inr t \<Rightarrow> Inr (t, fst (book_of e symbol)))) \<and>
   (\<forall>t e'. build_until e rows symbol h = Inr (t, e') \<longrightarrow>
      (\<exists>book'. replay (snd (book_of e symbol)) (applied_rows symbol h rows) = Inr book' \<and>
         t = spec_top_n 10 book' \<and> e' = e\<lparr>books := (books e)(symbol \<mapsto> book')\<rparr>)) \<and>
   (map row_time (filter (\<lambda>r. row_symbol r = symbol) rows) = [1, 2, 3, 5] \<longrightarrow>
      applied_rows symbol 4 rows = filter (\<lambda>r. row_symbol r = symbol) rows)"
proof -
  have none: "applied_rows symbol h rows = [] \<longrightarrow>
      build_until e rows symbol h =
        (case top10 (snd (book_of e symbol)) of
           Inl err \<Rightarrow> Inl (err, fst (book_of e symbol))
         | Inr t \<Rightarrow> Inr (t, fst (book_of e symbol)))"
  proof
    assume a: "applied_rows symbol h rows = []"
    have "e\<lparr>books := (books e)(symbol \<mapsto> snd (book_of e symbol))\<rparr> = fst (book_of e symbol)"
      by (simp add: book_of_def split: option.splits) (auto simp: fun_eq_iff)
    with a show "build_until e rows symbol h =
        (case top10 (snd (book_of e symbol)) of
           Inl err \<Rightarrow> Inl (err, fst (book_of e symbol))
         | Inr t \<Rightarrow> Inr (t, fst (book_of e symbol)))"
      by (cases "top10 (snd (book_of e symbol))") (simp_all add: build_until_unfold replay_def)
  qed
  have ret: "\<forall>t e'. build_until e rows symbol h = Inr (t, e') \<longrightarrow>
      (\<exists>book'. replay (snd (book_of e symbol)) (applied_rows symbol h rows) = Inr book' \<and>
         t = spec_top_n 10 book' \<and> e' = e\<lparr>books := (books e)(symbol \<mapsto> book')\<rparr>)"
    using build_until_returns [of e rows symbol h] by blast
  show ?thesis
    using build_loop_replay [of symbol h book rows] build_until_applies_spec [of symbol h rows e]
      none ret applied_rows_boundary [of symbol rows]
    by blast
qed

theorem build_until_replays_stream_witness:
  "map row_time (filter (\<lambda>r. row_symbol r = ''BTC/USD'')
      [\<lparr>row_symbol = ''BTC/USD'', row_time = 1, row_bids = [(99, 1)], row_asks = [(101, 1)]\<rparr>,
       \<lparr>row_symbol = ''ETH/USD'', row_time = 1, row_bids = [(9, 1)], row_asks = [(11, 1)]\<rparr>,
       \<lparr>row_symbol = ''BTC/USD'', row_time = 2, row_bids = [(99, 0)], row_asks = []\<rparr>,
       \<lparr>row_symbol = ''BTC/USD'', row_time = 3, row_bids = [(98, 2)], row_asks = []\<rparr>,
       \<lparr>row_symbol = ''BTC/USD'', row_time = 5, row_bids = [], row_asks = [(102, 4)]\<rparr>]) =
     [1, 2, 3, 5] \<and>
   applied_rows ''BTC/USD'' 4
      [\<lparr>row_symbol = ''BTC/USD'', row_time = 1, row_bids = [(99, 1)], row_asks = [(101, 1)]\<rparr>,
       \<lparr>row_symbol = ''ETH/USD'', row_time = 1, row_bids = [(9, 1)], row_asks = [(11, 1)]\<rparr>,
       \<lparr>row_symbol = ''BTC/USD'', row_time = 2, row_bids = [(99, 0)], row_asks = []\<rparr>,
       \<lparr>row_symbol = ''BTC/USD'', row_time = 3, row_bids = [(98, 2)], row_asks = []\<rparr>,
       \<lparr>row_symbol = ''BTC/USD'', row_time = 5, row_bids = [], row_asks = [(102, 4)]\<rparr>] =
     [\<lparr>row_symbol = ''BTC/USD'', row_time = 1, row_bids = [(99, 1)], row_asks = [(101, 1)]\<rparr>,
      \<lparr>row_symbol = ''BTC/USD'', row_time = 2, row_bids = [(99, 0)], row_asks = []\<rparr>,
      \<lparr>row_symbol = ''BTC/USD'', row_time = 3, row_bids = [(98, 2)], row_asks = []\<rparr>,
      \<lparr>row_symbol = ''BTC/USD'', row_time = 5, row_bids = [], row_asks = [(102, 4)]\<rparr>] \<and>
   applied_rows ''BTC/USD'' 4
      [\<lparr>row_symbol = ''BTC/USD'', row_time = 1, row_bids = [(99, 1)], row_asks = [(101, 1)]\<rparr>,
       \<lparr>row_symbol = ''ETH/USD'', row_time = 1, row_bids = [(9, 1)], row_asks = [(11, 1)]\<rparr>,
       \<lparr>row_symbol = ''BTC/USD'', row_time = 2, row_bids = [(99, 0)], row_asks = []\<rparr>,
       \<lparr>row_symbol = ''BTC/USD'', row_time = 3, row_bids = [(98, 2)], row_asks = []\<rparr>,
       \<lparr>row_symbol = ''BTC/USD'', row_time = 5, row_bids = [], row_asks = [(102, 4)]\<rparr>,
       \<lparr>row_symbol = ''BTC/USD'', row_time = 6, row_bids = [(97, 7)], row_asks = [(101, 0)]\<rparr>] \<noteq> [] \<and>
   replay new_book (applied_rows ''BTC/USD'' 4
      [\<lparr>row_symbol = ''BTC/USD'', row_time = 1, row_bids = [(99, 1)], row_asks = [(101, 1)]\<rparr>,
       \<lparr>row_symbol = ''ETH/USD'', row_time = 1, row_bids = [(9, 1)], row_asks = [(11, 1)]\<rparr>,
       \<lparr>row_symbol = ''BTC/USD'', row_time = 2, row_bids = [(99, 0)], row_asks = []\<rparr>,
       \<lparr>row_symbol = ''BTC/USD'', row_time = 3, row_bids = [(98, 2)], row_asks = []\<rparr>,
       \<lparr>row_symbol = ''BTC/USD'', row_time = 5, row_bids = [], row_asks = [(102, 4)]\<rparr>,
       \<lparr>row_symbol = ''BTC/USD'', row_time = 6, row_bids = [(97, 7)], row_asks = [(101, 0)]\<rparr>]) =
     Inr \<lparr>bids = \<lparr>is_ask = False, prices = [98], qty = [98 \<mapsto> 2]\<rparr>,
          asks = \<lparr>is_ask = True, prices = [101, 102], qty = [101 \<mapsto> 1, 102 \<mapsto> 4]\<rparr>\<rparr> \<and>
   build_until \<lparr>path = ''book.csv'', books = Map.empty\<rparr>
      [\<lparr>row_symbol = ''BTC/USD'', row_time = 1, row_bids = [(99, 1)], row_asks = [(101, 1)]\<rparr>,
       \<lparr>row_symbol = ''ETH/USD'', row_time = 1, row_bids = [(9, 1)], row_asks = [(11, 1)]\<rparr>,
       \<lparr>row_symbol = ''BTC/USD'', row_time = 2, row_bids = [(99, 0)], row_asks = []\<rparr>,
       \<lparr>row_symbol = ''BTC/USD'', row_time = 3, row_bids = [(98, 2)], row_asks = []\<rparr>,
       \<lparr>row_symbol = ''BTC/USD'', row_time = 5, row_bids = [], row_asks = [(102, 4)]\<rparr>,
       \<lparr>row_symbol = ''BTC/USD'', row_time = 6, row_bids = [(97, 7)], row_asks = [(101, 0)]\<rparr>]
      ''BTC/USD'' 4 =
     Inr (\<lparr>top_bids = [(98, 2)], top_asks = [(101, 1), (102, 4)]\<rparr>,
          \<lparr>path = ''book.csv'',
           books = [''BTC/USD'' \<mapsto>
             \<lparr>bids = \<lparr>is_ask = False, prices = [98], qty = [98 \<mapsto> 2]\<rparr>,
          asks = \<lparr>is_ask = True, prices = [101, 102], qty = [101 \<mapsto> 1, 102 \<mapsto> 4]\<rparr>\<rparr>]\<rparr>) \<and>
   applied_rows ''XRP/USD'' 4
      [\<lparr>row_symbol = ''BTC/USD'', row_time = 1, row_bids = [(99, 1)], row_asks = [(101, 1)]\<rparr>] = [] \<and>
   build_until \<lparr>path = ''book.csv'', books = Map.empty\<rparr>
      [\<lparr>row_symbol = ''BTC/USD'', row_time = 1, row_bids = [(99, 1)], row_asks = [(101, 1)]\<rparr>]
      ''XRP/USD'' 4 =
     Inr (\<lparr>top_bids = [], top_asks = []\<rparr>,
          \<lparr>path = ''book.csv'', books = [''XRP/USD'' \<mapsto> new_book]\<rparr>)"
proof -
  let ?rows = "[\<lparr>row_symbol = ''BTC/USD'', row_time = 1, row_bids = [(99, 1)], row_asks = [(101, 1)]\<rparr>,
       \<lparr>row_symbol = ''ETH/USD'', row_time = 1, row_bids = [(9, 1)], row_asks = [(11, 1)]\<rparr>,
       \<lparr>row_symbol = ''BTC/USD'', row_time = 2, row_bids = [(99, 0)], row_asks = []\<rparr>,
       \<lparr>row_symbol = ''BTC/USD'', row_time = 3, row_bids = [(98, 2)], row_asks = []\<rparr>,
       \<lparr>row_symbol = ''BTC/USD'', row_time = 5, row_bids = [], row_asks = [(102, 4::real)]\<rparr>]"
  let ?more = "?rows @
       [\<lparr>row_symbol = ''BTC/USD'', row_time = 6, row_bids = [(97, 7)], row_asks = [(101, 0::real)]\<rparr>]"
  let ?one = "[\<lparr>row_symbol = ''BTC/USD'', row_time = 1, row_bids = [(99, 1)], row_asks = [(101, 1::real)]\<rparr>]"
  let ?e = "\<lparr>path = ''book.csv'', books = Map.empty\<rparr>"
  let ?final = "\<lparr>bids = \<lparr>is_ask = False, prices = [98], qty = [98 \<mapsto> (2::real)]\<rparr>,
          asks = \<lparr>is_ask = True, prices = [101, 102], qty = [101 \<mapsto> 1, 102 \<mapsto> (4::real)]\<rparr>\<rparr>"
  have t: "map row_time (filter (\<lambda>r. row_symbol r = ''BTC/USD'') ?rows) = [1, 2, 3, 5]"
    by simp
  have n: "applied_rows ''XRP/USD'' 4 ?one = []"
    by (simp add: applied_rows_def)
  have m: "applied_rows ''BTC/USD'' 4 ?more \<noteq> []"
    by (simp add: applied_rows_def)
  have nb: "snd (book_of ?e ''BTC/USD'') = new_book" by (simp add: book_of_def)
  have f: "replay new_book (applied_rows ''BTC/USD'' 4 ?more) = Inr ?final"
    using replay_example by simp
  have tv: "spec_top_n 10 ?final = \<lparr>top_bids = [(98, 2)], top_asks = [(101, 1), (102, 4)]\<rparr>"
    by (simp add: spec_top_n_def spec_best_n_def)
  from build_until_replays_stream [of "''BTC/USD''" 4 new_book ?rows ?e] t
  have a: "applied_rows ''BTC/USD'' 4 ?rows = filter (\<lambda>r. row_symbol r = ''BTC/USD'') ?rows"
    by blast
  from build_until_replays_stream [of "''BTC/USD''" 4 new_book ?more ?e] m
  obtain book' where
    r: "replay (snd (book_of ?e ''BTC/USD'')) (applied_rows ''BTC/USD'' 4 ?more) = Inr book'"
    and u: "build_until ?e ?more ''BTC/USD'' 4 =
              Inr (spec_top_n 10 book', ?e\<lparr>books := (books ?e)(''BTC/USD'' \<mapsto> book')\<rparr>)"
    by blast
  from r nb f have "book' = ?final" by simp
  with u tv have g: "build_until ?e ?more ''BTC/USD'' 4 =
     Inr (\<lparr>top_bids = [(98, 2)], top_asks = [(101, 1), (102, 4)]\<rparr>,
          \<lparr>path = ''book.csv'', books = [''BTC/USD'' \<mapsto> ?final]\<rparr>)"
    by simp
  from build_until_replays_stream [of "''XRP/USD''" 4 new_book ?one ?e] n
  have "build_until ?e ?one ''XRP/USD'' 4 =
        (case top10 (snd (book_of ?e ''XRP/USD'')) of
           Inl err \<Rightarrow> Inl (err, fst (book_of ?e ''XRP/USD''))
         | Inr t \<Rightarrow> Inr (t, fst (book_of ?e ''XRP/USD'')))"
    by blast
  then have b: "build_until ?e ?one ''XRP/USD'' 4 =
     Inr (\<lparr>top_bids = [], top_asks = []\<rparr>, \<lparr>path = ''book.csv'', books = [''XRP/USD'' \<mapsto> new_book]\<rparr>)"
    by (simp add: book_of_def top10_new_book)
  from t n a b m f g show ?thesis by simp
qed

section \<open>Looking a book up\<close>

text \<open>
  Claim C9, as amended. \<^verbatim>\<open>expose\<close> returns the book the registry holds for the symbol, and
  the absent value \<^verbatim>\<open>None\<close>, without raising, when the registry holds none. After a
  \<^verbatim>\<open>build_until\<close> for a symbol has returned, the registry holds a book for it, whether or
  not the stream had a row for the symbol.
\<close>

theorem expose_reads_registry:
  "(\<forall>b. books e symbol = Some b \<longrightarrow> expose e symbol = Some b) \<and>
   (books e symbol = None \<longrightarrow> expose e symbol = None) \<and>
   (\<forall>t e'. build_until e rows symbol h = Inr (t, e') \<longrightarrow> (\<exists>b. expose e' symbol = Some b))"
  by (auto simp: expose_def build_until_unfold split: sum.splits)

theorem expose_reads_registry_witness:
  "books \<lparr>path = ''book.csv'', books = [''BTC/USD'' \<mapsto> new_book]\<rparr> ''BTC/USD'' = Some new_book \<and>
   expose \<lparr>path = ''book.csv'', books = [''BTC/USD'' \<mapsto> new_book]\<rparr> ''BTC/USD'' = Some new_book \<and>
   books \<lparr>path = ''book.csv'', books = [''BTC/USD'' \<mapsto> new_book]\<rparr> ''ETH/USD'' = None \<and>
   expose \<lparr>path = ''book.csv'', books = [''BTC/USD'' \<mapsto> new_book]\<rparr> ''ETH/USD'' = None \<and>
   build_until \<lparr>path = ''book.csv'', books = [''BTC/USD'' \<mapsto> new_book]\<rparr> [] ''ETH/USD'' 0 =
     Inr (\<lparr>top_bids = [], top_asks = []\<rparr>,
          \<lparr>path = ''book.csv'', books = [''BTC/USD'' \<mapsto> new_book, ''ETH/USD'' \<mapsto> new_book]\<rparr>) \<and>
   (\<exists>b. expose \<lparr>path = ''book.csv'',
                  books = [''BTC/USD'' \<mapsto> new_book, ''ETH/USD'' \<mapsto> new_book]\<rparr> ''ETH/USD'' = Some b)"
proof -
  let ?e = "\<lparr>path = ''book.csv'', books = [''BTC/USD'' \<mapsto> new_book]\<rparr>"
  let ?e' = "\<lparr>path = ''book.csv'', books = [''BTC/USD'' \<mapsto> new_book, ''ETH/USD'' \<mapsto> new_book]\<rparr>"
  have k: "books ?e ''BTC/USD'' = Some new_book" by simp
  have u: "books ?e ''ETH/USD'' = None" by simp
  have r: "build_until ?e [] ''ETH/USD'' 0 = Inr (\<lparr>top_bids = [], top_asks = []\<rparr>, ?e')"
    by (simp add: build_until_def book_of_def top10_new_book)
  from expose_reads_registry [of ?e "''BTC/USD''" "[]" 0] k
  have a: "expose ?e ''BTC/USD'' = Some new_book" by blast
  from expose_reads_registry [of ?e "''ETH/USD''" "[]" 0] u r
  have "expose ?e ''ETH/USD'' = None" "\<exists>b. expose ?e' ''ETH/USD'' = Some b" by blast+
  with a k u r show ?thesis by blast
qed

text \<open>
  Claim C9 as the specification states it fails for an instrument that has had no
  events: after \<^verbatim>\<open>build_until\<close> over a stream without any row, \<^verbatim>\<open>expose\<close> returns the
  empty book that \<^verbatim>\<open>_book\<close> registered.
\<close>

theorem expose_after_build_without_events:
  "build_until \<lparr>path = ''book.csv'', books = Map.empty\<rparr> [] ''BTC/USD'' 0 =
     Inr (\<lparr>top_bids = [], top_asks = []\<rparr>,
          \<lparr>path = ''book.csv'', books = [''BTC/USD'' \<mapsto> new_book]\<rparr>) \<and>
   expose \<lparr>path = ''book.csv'', books = [''BTC/USD'' \<mapsto> new_book]\<rparr> ''BTC/USD'' = Some new_book"
  by (simp add: build_until_def book_of_def top10_new_book expose_def)

section \<open>The crossing loop\<close>

lemma tolerance_pos: "0 < tolerance"
  by (simp add: tolerance_def)

lemma levels_unchanged:
  "p \<notin> set ps \<Longrightarrow>
   map (\<lambda>k. (k, dict_get (m(p := v)) k 0)) ps = map (\<lambda>k. (k, dict_get m k 0)) ps"
  by (induction ps) (auto simp: dict_get_def)

lemma cross_stops:
  "prices opp = [] \<or>
   (\<exists>p ps. prices opp = p # ps \<and> \<not> ((if buy then p \<le> P else p \<ge> P) \<and> q > tolerance)) \<Longrightarrow>
   cross buy opp P q = Inr (opp, q)"
  by (subst cross.simps) (auto split: list.splits)

lemma cross_step:
  assumes inv: "side_inv opp" and pr: "prices opp = p # ps"
    and mk: "if buy then p \<le> P else p \<ge> P" and q: "q > tolerance"
  shows "\<exists>l s2. qty opp p = Some l \<and> levels opp = (p, l) # tl (levels opp) \<and>
           cross buy opp P q = cross buy s2 P (q - min l q) \<and>
           side_inv s2 \<and> is_ask s2 = is_ask opp \<and>
           levels s2 = (if l - min l q \<le> tolerance then tl (levels opp)
                        else (p, l - min l q) # tl (levels opp))"
proof -
  from inv pr have "p \<in> dom (qty opp)" by (auto simp: side_inv_def)
  then obtain l where l: "qty opp p = Some l" by auto
  from inv pr have "distinct (p # ps)" by (auto simp: side_inv_def dest: side_sorted_distinct)
  then have np: "p \<notin> set ps" by simp
  have tl_lv: "tl (levels opp) = map (\<lambda>k. (k, dict_get (qty opp) k 0)) ps"
    by (simp add: levels_def pr)
  have lv: "levels opp = (p, l) # tl (levels opp)"
    by (simp add: levels_def pr l dict_get_def)
  let ?t = "min l q"
  have pd: "p \<in> dom (qty opp)" using l by auto
  from update_level_inv [OF inv, of p "l - ?t"] obtain s1 where
    s1: "update_level opp p (l - ?t) = Inr s1" "side_inv s1" "is_ask s1 = is_ask opp"
        "qty s1 = (if l - ?t \<le> 0 then (qty opp)(p := None) else (qty opp)(p \<mapsto> l - ?t))"
    and "prices s1 = (if l - ?t \<le> 0 then remove1 p (prices opp)
                      else if p \<in> dom (qty opp) then prices opp
                      else insert_at (key_index opp p) p (prices opp))"
    by blast
  then have s1p: "prices s1 = (if l - ?t \<le> 0 then ps else p # ps)"
    using pr pd by simp
  have unf: "cross buy opp P q =
     (case (if p \<in> dom (qty s1) \<and> dict_get (qty s1) p 0 \<le> tolerance
            then update_level s1 p 0 else Inr s1) of
        Inl (e, s) \<Rightarrow> Inl (e, s, q)
      | Inr s2 \<Rightarrow> cross buy s2 P (q - ?t))"
    using pr mk q l s1(1) by (subst cross.simps) (simp add: Let_def)
  show ?thesis
  proof (cases "l - ?t \<le> 0")
    case True
    then have "p \<notin> dom (qty s1)" using s1(4) by simp
    then have c: "cross buy opp P q = cross buy s1 P (q - ?t)" using unf by simp
    have "levels s1 = map (\<lambda>k. (k, dict_get (qty opp) k 0)) ps"
      using True s1(4) s1p np by (simp add: levels_def levels_unchanged)
    then have "levels s1 = tl (levels opp)" by (simp only: tl_lv)
    moreover have "l - ?t \<le> tolerance" using True tolerance_pos by simp
    ultimately show ?thesis using l lv c s1(2,3) by auto
  next
    case pos: False
    then have q1: "qty s1 = (qty opp)(p \<mapsto> l - ?t)" and p1: "prices s1 = p # ps"
      using s1(4) s1p by simp_all
    show ?thesis
    proof (cases "l - ?t \<le> tolerance")
      case True
      from update_level_inv [OF s1(2), of p 0] obtain s2 where
        s2: "update_level s1 p 0 = Inr s2" "side_inv s2" "is_ask s2 = is_ask s1"
        and s2q: "qty s2 = (if (0::real) \<le> 0 then (qty s1)(p := None) else (qty s1)(p \<mapsto> 0))"
        and s2r: "prices s2 = (if (0::real) \<le> 0 then remove1 p (prices s1)
                      else if p \<in> dom (qty s1) then prices s1
                      else insert_at (key_index s1 p) p (prices s1))"
        by blast
      have s2': "qty s2 = (qty s1)(p := None)" "prices s2 = ps"
        using s2q s2r p1 by simp_all
      have c: "cross buy opp P q = cross buy s2 P (q - ?t)"
        using unf True q1 s2(1) by (simp add: dict_get_def)
      have "levels s2 = map (\<lambda>k. (k, dict_get (qty opp) k 0)) ps"
        using s2' q1 np by (simp add: levels_def levels_unchanged)
      then have "levels s2 = tl (levels opp)" by (simp only: tl_lv)
      with True l lv c s2(2,3) s1(3) show ?thesis by auto
    next
      case False
      then have c: "cross buy opp P q = cross buy s1 P (q - ?t)"
        using unf q1 by (simp add: dict_get_def)
      have "levels s1 = (p, l - ?t) # map (\<lambda>k. (k, dict_get (qty opp) k 0)) ps"
        using q1 p1 np levels_unchanged [of p ps "qty opp" "Some (l - ?t)"]
        by (simp add: levels_def dict_get_def)
      then have "levels s1 = (p, l - ?t) # tl (levels opp)" by (simp only: tl_lv)
      with False l lv c s1(2,3) show ?thesis by auto
    qed
  qed
qed

lemma cross_refines:
  "side_inv opp \<Longrightarrow> levels opp = ls \<Longrightarrow>
   \<exists>opp' r. cross buy opp P q = Inr (opp', r) \<and> side_inv opp' \<and> is_ask opp' = is_ask opp \<and>
            spec_cross buy P ls q = (levels opp', r)"
proof (induction buy P ls q arbitrary: opp rule: spec_cross.induct)
  case (1 buy P r)
  then have "prices opp = []" by (simp add: levels_def)
  then have "cross buy opp P r = Inr (opp, r)" by (simp add: cross_stops)
  with 1 show ?case by (simp add: spec_cross.simps)
next
  case (2 buy P p l ls r)
  from "2.prems"(2) obtain ps where pr: "prices opp = p # ps"
    by (auto simp: levels_def)
  show ?case
  proof (cases "(if buy then p \<le> P else p \<ge> P) \<and> r > tolerance")
    case False
    with pr have "cross buy opp P r = Inr (opp, r)" by (intro cross_stops) auto
    moreover have "spec_cross buy P ((p, l) # ls) r = ((p, l) # ls, r)"
      using False by (subst spec_cross.simps) auto
    ultimately show ?thesis using "2.prems" by simp
  next
    case True
    then have mk: "if buy then p \<le> P else p \<ge> P" and r: "r > tolerance" by simp_all
    from cross_step [OF "2.prems"(1) pr mk r] "2.prems"(2) obtain s2 where
      s2: "cross buy opp P r = cross buy s2 P (r - min l r)" "side_inv s2"
          "is_ask s2 = is_ask opp"
          "levels s2 = (if l - min l r \<le> tolerance then ls else (p, l - min l r) # ls)"
      by auto
    show ?thesis
    proof (cases "l - min l r \<le> tolerance")
      case le: True
      from "2.IH"(1) [OF True le s2(2)] s2(4) le obtain opp' r' where
        "cross buy s2 P (r - min l r) = Inr (opp', r')" "side_inv opp'" "is_ask opp' = is_ask s2"
        "spec_cross buy P ls (r - min l r) = (levels opp', r')"
        by auto
      moreover have "spec_cross buy P ((p, l) # ls) r = spec_cross buy P ls (r - min l r)"
        using True le by (subst spec_cross.simps) auto
      ultimately show ?thesis using s2 by simp
    next
      case gt: False
      from "2.IH"(2) [OF True gt s2(2)] s2(4) gt obtain opp' r' where
        "cross buy s2 P (r - min l r) = Inr (opp', r')" "side_inv opp'" "is_ask opp' = is_ask s2"
        "spec_cross buy P ((p, l - min l r) # ls) (r - min l r) = (levels opp', r')"
        by auto
      moreover have "spec_cross buy P ((p, l) # ls) r =
          spec_cross buy P ((p, l - min l r) # ls) (r - min l r)"
        using True gt by (subst spec_cross.simps) auto
      ultimately show ?thesis using s2 by simp
    qed
  qed
qed

section \<open>Simulating a limit order\<close>

lemma lower_tokens: "lower ''buy'' = ''buy''" "lower ''sell'' = ''sell''"
  by code_simp+

lemma cross_example_limit_below:
  "cross True \<lparr>is_ask = True, prices = [100, 101], qty = [100 \<mapsto> 2, 101 \<mapsto> 3]\<rparr> (201 / 2) 4 =
     Inr (\<lparr>is_ask = True, prices = [101], qty = [101 \<mapsto> 3]\<rparr>, 2)"
  "cross True \<lparr>is_ask = True, prices = [100, 101], qty = [100 \<mapsto> 2, 101 \<mapsto> 3]\<rparr> (201 / 2) 5 =
     Inr (\<lparr>is_ask = True, prices = [101], qty = [101 \<mapsto> 3]\<rparr>, 3)"
  by (simp_all add: cross.simps tolerance_def update_level_def dict_get_def Let_def pop_at_def)

lemma cross_example_limit_101:
  "cross True \<lparr>is_ask = True, prices = [100, 101], qty = [100 \<mapsto> 2, 101 \<mapsto> 3]\<rparr> 101 4 =
     Inr (\<lparr>is_ask = True, prices = [101], qty = [101 \<mapsto> 1]\<rparr>, 0)"
  "cross True \<lparr>is_ask = True, prices = [100, 101], qty = [100 \<mapsto> 2, 101 \<mapsto> 3]\<rparr> 101 5 =
     Inr (\<lparr>is_ask = True, prices = [], qty = Map.empty\<rparr>, 0)"
  by (simp_all add: cross.simps tolerance_def update_level_def dict_get_def Let_def pop_at_def)

lemma place_example_limit_below:
  "place_limit_order
     \<lparr>bids = new_side False,
      asks = \<lparr>is_ask = True, prices = [100, 101], qty = [100 \<mapsto> 2, 101 \<mapsto> 3]\<rparr>\<rparr>
     ''buy'' (201 / 2) 4 =
   Inr (\<lparr>top_bids = [(201 / 2, 2)], top_asks = [(101, 3)]\<rparr>,
        \<lparr>bids = \<lparr>is_ask = False, prices = [201 / 2], qty = [201 / 2 \<mapsto> 2]\<rparr>,
         asks = \<lparr>is_ask = True, prices = [101], qty = [101 \<mapsto> 3]\<rparr>\<rparr>)"
  "place_limit_order
     \<lparr>bids = new_side False,
      asks = \<lparr>is_ask = True, prices = [100, 101], qty = [100 \<mapsto> 2, 101 \<mapsto> 3]\<rparr>\<rparr>
     ''buy'' (201 / 2) 5 =
   Inr (\<lparr>top_bids = [(201 / 2, 3)], top_asks = [(101, 3)]\<rparr>,
        \<lparr>bids = \<lparr>is_ask = False, prices = [201 / 2], qty = [201 / 2 \<mapsto> 3]\<rparr>,
         asks = \<lparr>is_ask = True, prices = [101], qty = [101 \<mapsto> 3]\<rparr>\<rparr>)"
  by (simp_all add: place_limit_order_def lower_tokens cross_example_limit_below tolerance_def
      new_side_def dict_get_def update_level_def key_index_def bisect_left_Nil insert_at_def
      return_top10_def top10_def best_n_def)

lemma place_example_limit_101:
  "place_limit_order
     \<lparr>bids = new_side False,
      asks = \<lparr>is_ask = True, prices = [100, 101], qty = [100 \<mapsto> 2, 101 \<mapsto> 3]\<rparr>\<rparr>
     ''buy'' 101 4 =
   Inr (\<lparr>top_bids = [], top_asks = [(101, 1)]\<rparr>,
        \<lparr>bids = new_side False,
         asks = \<lparr>is_ask = True, prices = [101], qty = [101 \<mapsto> 1]\<rparr>\<rparr>)"
  "place_limit_order
     \<lparr>bids = new_side False,
      asks = \<lparr>is_ask = True, prices = [100, 101], qty = [100 \<mapsto> 2, 101 \<mapsto> 3]\<rparr>\<rparr>
     ''buy'' 101 5 =
   Inr (\<lparr>top_bids = [], top_asks = []\<rparr>,
        \<lparr>bids = new_side False, asks = \<lparr>is_ask = True, prices = [], qty = Map.empty\<rparr>\<rparr>)"
  by (simp_all add: place_limit_order_def lower_tokens cross_example_limit_101 tolerance_def
      new_side_def return_top10_def top10_def best_n_def)

lemma dict_get_nonneg: "side_inv s \<Longrightarrow> 0 \<le> dict_get (qty s) p 0"
  by (cases "qty s p") (auto simp: dict_get_def side_inv_def dest: less_imp_le)

lemma rest_residual:
  assumes "side_inv own" "tolerance < r"
  shows "\<exists>own'. update_level own P (dict_get (qty own) P 0 + r) = Inr own' \<and> side_inv own' \<and>
           is_ask own' = is_ask own \<and>
           qty own' = (qty own)(P \<mapsto> dict_get (qty own) P 0 + r)"
proof -
  have "0 < dict_get (qty own) P 0 + r"
    using dict_get_nonneg [OF assms(1), of P] assms(2) tolerance_pos by simp
  then have "\<not> dict_get (qty own) P 0 + r \<le> 0" by simp
  with update_level_inv [OF assms(1), of P "dict_get (qty own) P 0 + r"] show ?thesis
    by auto
qed

lemma return_top10_inv:
  "side_inv (bids b) \<Longrightarrow> side_inv (asks b) \<Longrightarrow>
   \<exists>t. return_top10 b = Inr (t, b) \<and> top10 b = Inr t"
  by (simp add: return_top10_def top10_inv)

lemma place_limit_order_buy:
  assumes b: "book_inv b" and q: "tolerance < Q" and s: "lower side \<in> {''buy'', ''bid''}"
  shows "\<exists>t b'. place_limit_order b side P Q = Inr (t, b') \<and> top10 b' = Inr t \<and> book_inv b' \<and>
           levels (asks b') = fst (spec_cross True P (levels (asks b)) Q) \<and>
           qty (bids b') =
             (if snd (spec_cross True P (levels (asks b)) Q) > tolerance
              then (qty (bids b))(P \<mapsto> dict_get (qty (bids b)) P 0 +
                                       snd (spec_cross True P (levels (asks b)) Q))
              else qty (bids b))"
proof -
  from b have ia: "side_inv (asks b)" "is_ask (asks b)" and ib: "side_inv (bids b)" "\<not> is_ask (bids b)"
    by (simp_all add: book_inv_def)
  from cross_refines [OF ia(1) refl, of True P Q] obtain a' r where
    c: "cross True (asks b) P Q = Inr (a', r)" "side_inv a'" "is_ask a' = is_ask (asks b)"
       "spec_cross True P (levels (asks b)) Q = (levels a', r)"
    by blast
  have q0: "\<not> Q \<le> 0" using q tolerance_pos by simp
  show ?thesis
  proof (cases "r > tolerance")
    case True
    from rest_residual [OF ib(1) True, of P] obtain own' where
      o: "update_level (bids b) P (dict_get (qty (bids b)) P 0 + r) = Inr own'" "side_inv own'"
         "is_ask own' = is_ask (bids b)"
         "qty own' = (qty (bids b))(P \<mapsto> dict_get (qty (bids b)) P 0 + r)"
      by blast
    let ?b' = "b\<lparr>asks := a', bids := own'\<rparr>"
    have "place_limit_order b side P Q = return_top10 ?b'"
      using s q0 c(1) True o(1) by (auto simp: place_limit_order_def Let_def)
    moreover from return_top10_inv [of ?b'] c(2) o(2) obtain t where
      "return_top10 ?b' = Inr (t, ?b')" "top10 ?b' = Inr t" by auto
    moreover have "book_inv ?b'" using c(2,3) o(2,3) ia ib by (simp add: book_inv_def)
    ultimately show ?thesis using c(4) o(4) True by auto
  next
    case False
    let ?b' = "b\<lparr>asks := a'\<rparr>"
    have "place_limit_order b side P Q = return_top10 ?b'"
      using s q0 c(1) False by (auto simp: place_limit_order_def Let_def)
    moreover from return_top10_inv [of ?b'] c(2) ib(1) obtain t where
      "return_top10 ?b' = Inr (t, ?b')" "top10 ?b' = Inr t" by auto
    moreover have "book_inv ?b'" using c(2,3) ia ib by (simp add: book_inv_def)
    ultimately show ?thesis using c(4) False by auto
  qed
qed

lemma place_limit_order_sell:
  assumes b: "book_inv b" and q: "tolerance < Q" and s: "lower side \<in> {''sell'', ''ask''}"
  shows "\<exists>t b'. place_limit_order b side P Q = Inr (t, b') \<and> top10 b' = Inr t \<and> book_inv b' \<and>
           levels (bids b') = fst (spec_cross False P (levels (bids b)) Q) \<and>
           qty (asks b') =
             (if snd (spec_cross False P (levels (bids b)) Q) > tolerance
              then (qty (asks b))(P \<mapsto> dict_get (qty (asks b)) P 0 +
                                       snd (spec_cross False P (levels (bids b)) Q))
              else qty (asks b))"
proof -
  from b have ia: "side_inv (asks b)" "is_ask (asks b)" and ib: "side_inv (bids b)" "\<not> is_ask (bids b)"
    by (simp_all add: book_inv_def)
  from cross_refines [OF ib(1) refl, of False P Q] obtain a' r where
    c: "cross False (bids b) P Q = Inr (a', r)" "side_inv a'" "is_ask a' = is_ask (bids b)"
       "spec_cross False P (levels (bids b)) Q = (levels a', r)"
    by blast
  have q0: "\<not> Q \<le> 0" using q tolerance_pos by simp
  from s have ns: "lower side \<notin> set [''buy'', ''bid'']" by auto
  show ?thesis
  proof (cases "r > tolerance")
    case True
    from rest_residual [OF ia(1) True, of P] obtain own' where
      o: "update_level (asks b) P (dict_get (qty (asks b)) P 0 + r) = Inr own'" "side_inv own'"
         "is_ask own' = is_ask (asks b)"
         "qty own' = (qty (asks b))(P \<mapsto> dict_get (qty (asks b)) P 0 + r)"
      by blast
    let ?b' = "b\<lparr>bids := a', asks := own'\<rparr>"
    have "place_limit_order b side P Q = return_top10 ?b'"
      using s ns q0 c(1) True o(1) by (auto simp: place_limit_order_def Let_def)
    moreover from return_top10_inv [of ?b'] c(2) o(2) obtain t where
      "return_top10 ?b' = Inr (t, ?b')" "top10 ?b' = Inr t" by auto
    moreover have "book_inv ?b'" using c(2,3) o(2,3) ia ib by (simp add: book_inv_def)
    ultimately show ?thesis using c(4) o(4) True by auto
  next
    case False
    let ?b' = "b\<lparr>bids := a'\<rparr>"
    have "place_limit_order b side P Q = return_top10 ?b'"
      using s ns q0 c(1) False by (auto simp: place_limit_order_def Let_def)
    moreover from return_top10_inv [of ?b'] c(2) ia(1) obtain t where
      "return_top10 ?b' = Inr (t, ?b')" "top10 ?b' = Inr t" by auto
    moreover have "book_inv ?b'" using c(2,3) ia ib by (simp add: book_inv_def)
    ultimately show ?thesis using c(4) False by auto
  qed
qed

lemma levels_sorted:
  "book_inv b \<Longrightarrow>
   sorted_wrt (<) (map fst (levels (asks b))) \<and> sorted_wrt (>) (map fst (levels (bids b)))"
  by (simp add: book_inv_def side_inv_def side_sorted_def levels_def comp_def)

text \<open>
  Claim C1, as amended in its example. On a book that satisfies its invariants (so the
  levels of the asks are listed from the lowest price up and those of the bids from the
  highest down), a buy with limit price \<open>P\<close> and quantity \<open>Q\<close> above the tolerance does not
  raise and leaves the asks with exactly the levels the crossing loop of the specification
  leaves: it takes from the best ask while there is one, its price is at most \<open>P\<close> and the
  remaining quantity exceeds the tolerance, each time the smaller of the level's quantity
  and the remaining quantity, deleting a level whose remainder is at or below the
  tolerance. If the quantity left exceeds the tolerance it is added on the bid side at
  \<open>P\<close> to the quantity resting there, otherwise the bids are unchanged. A sell is the same
  against the bids with the condition price at least \<open>P\<close>, and rests on the asks. The value
  returned is the top ten of the resulting book.
  With asks \<open>{100: 2, 101: 3}\<close> and no bids, a buy at 100.5 takes the level at 100 only,
  since 101 is above the limit: for 4 it leaves asks \<open>{101: 3}\<close> and bids \<open>{100.5: 2}\<close>,
  for 5 asks \<open>{101: 3}\<close> and bids \<open>{100.5: 3}\<close>. With the limit at 101, a buy for 4
  leaves asks \<open>{101: 1}\<close> and no bids, and a buy for 5 leaves both sides empty.
\<close>

theorem place_limit_order_crosses_then_rests:
  "(book_inv b \<longrightarrow>
      sorted_wrt (<) (map fst (levels (asks b))) \<and> sorted_wrt (>) (map fst (levels (bids b)))) \<and>
   (book_inv b \<and> tolerance < Q \<and> lower side \<in> {''buy'', ''bid''} \<longrightarrow>
      (\<exists>t b'. place_limit_order b side P Q = Inr (t, b') \<and> top10 b' = Inr t \<and> book_inv b' \<and>
         levels (asks b') = fst (spec_cross True P (levels (asks b)) Q) \<and>
         qty (bids b') =
           (if snd (spec_cross True P (levels (asks b)) Q) > tolerance
            then (qty (bids b))(P \<mapsto> dict_get (qty (bids b)) P 0 +
                                     snd (spec_cross True P (levels (asks b)) Q))
            else qty (bids b)))) \<and>
   (book_inv b \<and> tolerance < Q \<and> lower side \<in> {''sell'', ''ask''} \<longrightarrow>
      (\<exists>t b'. place_limit_order b side P Q = Inr (t, b') \<and> top10 b' = Inr t \<and> book_inv b' \<and>
         levels (bids b') = fst (spec_cross False P (levels (bids b)) Q) \<and>
         qty (asks b') =
           (if snd (spec_cross False P (levels (bids b)) Q) > tolerance
            then (qty (asks b))(P \<mapsto> dict_get (qty (asks b)) P 0 +
                                     snd (spec_cross False P (levels (bids b)) Q))
            else qty (asks b)))) \<and>
   place_limit_order
     \<lparr>bids = new_side False,
      asks = \<lparr>is_ask = True, prices = [100, 101], qty = [100 \<mapsto> 2, 101 \<mapsto> 3]\<rparr>\<rparr>
     ''buy'' (201 / 2) 4 =
   Inr (\<lparr>top_bids = [(201 / 2, 2)], top_asks = [(101, 3)]\<rparr>,
        \<lparr>bids = \<lparr>is_ask = False, prices = [201 / 2], qty = [201 / 2 \<mapsto> 2]\<rparr>,
         asks = \<lparr>is_ask = True, prices = [101], qty = [101 \<mapsto> 3]\<rparr>\<rparr>) \<and>
   place_limit_order
     \<lparr>bids = new_side False,
      asks = \<lparr>is_ask = True, prices = [100, 101], qty = [100 \<mapsto> 2, 101 \<mapsto> 3]\<rparr>\<rparr>
     ''buy'' (201 / 2) 5 =
   Inr (\<lparr>top_bids = [(201 / 2, 3)], top_asks = [(101, 3)]\<rparr>,
        \<lparr>bids = \<lparr>is_ask = False, prices = [201 / 2], qty = [201 / 2 \<mapsto> 3]\<rparr>,
         asks = \<lparr>is_ask = True, prices = [101], qty = [101 \<mapsto> 3]\<rparr>\<rparr>) \<and>
   place_limit_order
     \<lparr>bids = new_side False,
      asks = \<lparr>is_ask = True, prices = [100, 101], qty = [100 \<mapsto> 2, 101 \<mapsto> 3]\<rparr>\<rparr>
     ''buy'' 101 4 =
   Inr (\<lparr>top_bids = [], top_asks = [(101, 1)]\<rparr>,
        \<lparr>bids = new_side False,
         asks = \<lparr>is_ask = True, prices = [101], qty = [101 \<mapsto> 1]\<rparr>\<rparr>) \<and>
   place_limit_order
     \<lparr>bids = new_side False,
      asks = \<lparr>is_ask = True, prices = [100, 101], qty = [100 \<mapsto> 2, 101 \<mapsto> 3]\<rparr>\<rparr>
     ''buy'' 101 5 =
   Inr (\<lparr>top_bids = [], top_asks = []\<rparr>,
        \<lparr>bids = new_side False, asks = \<lparr>is_ask = True, prices = [], qty = Map.empty\<rparr>\<rparr>)"
  using levels_sorted [of b] place_limit_order_buy [of b Q side P]
    place_limit_order_sell [of b Q side P] place_example_limit_below place_example_limit_101
  by blast

theorem place_limit_order_crosses_then_rests_witness:
  "book_inv \<lparr>bids = new_side False,
      asks = \<lparr>is_ask = True, prices = [100, 101], qty = [100 \<mapsto> 2, 101 \<mapsto> 3]\<rparr>\<rparr> \<and>
   tolerance < 4 \<and> lower ''BUY'' \<in> {''buy'', ''bid''} \<and>
   (\<exists>t b'. place_limit_order \<lparr>bids = new_side False,
      asks = \<lparr>is_ask = True, prices = [100, 101], qty = [100 \<mapsto> 2, 101 \<mapsto> 3]\<rparr>\<rparr> ''BUY'' 101 4 = Inr (t, b') \<and>
      levels (asks b') = [(101, 1)] \<and> qty (bids b') = Map.empty) \<and>
   book_inv \<lparr>bids = \<lparr>is_ask = False, prices = [99, 98], qty = [99 \<mapsto> 2, 98 \<mapsto> 1]\<rparr>,
             asks = new_side True\<rparr> \<and>
   lower ''Sell'' \<in> {''sell'', ''ask''} \<and>
   (\<exists>t b'. place_limit_order
              \<lparr>bids = \<lparr>is_ask = False, prices = [99, 98], qty = [99 \<mapsto> 2, 98 \<mapsto> 1]\<rparr>,
               asks = new_side True\<rparr> ''Sell'' (197 / 2) 4 = Inr (t, b') \<and>
      levels (bids b') = [(98, 1)] \<and> qty (asks b') = [197 / 2 \<mapsto> 2])"
proof -
  let ?a = "\<lparr>bids = new_side False,
      asks = \<lparr>is_ask = True, prices = [100, 101], qty = [100 \<mapsto> 2, 101 \<mapsto> 3]\<rparr>\<rparr>"
  let ?s = "\<lparr>bids = \<lparr>is_ask = False, prices = [99, 98], qty = [99 \<mapsto> 2, 98 \<mapsto> (1::real)]\<rparr>,
             asks = new_side True\<rparr>"
  have ia: "book_inv ?a"
    by (auto simp: book_inv_def new_side_inv side_inv_def side_sorted_def new_side_def
        split: if_splits)
  have iv: "book_inv ?s"
    by (auto simp: book_inv_def new_side_inv side_inv_def side_sorted_def new_side_def
        split: if_splits)
  have q: "tolerance < 4" by (simp add: tolerance_def)
  have lb: "lower ''BUY'' \<in> {''buy'', ''bid''}" by code_simp
  have ls: "lower ''Sell'' \<in> {''sell'', ''ask''}" by code_simp
  have ca: "spec_cross True 101 (levels (asks ?a)) 4 = ([(101, 1)], 0)"
    by (simp add: levels_def dict_get_def spec_cross.simps tolerance_def)
  have cs: "spec_cross False (197 / 2) (levels (bids ?s)) 4 = ([(98, 1)], 2)"
    by (simp add: levels_def dict_get_def spec_cross.simps tolerance_def)
  from place_limit_order_crosses_then_rests [of ?a 4 "''BUY''" 101] ia q lb
  have "\<exists>t b'. place_limit_order ?a ''BUY'' 101 4 = Inr (t, b') \<and> top10 b' = Inr t \<and> book_inv b' \<and>
         levels (asks b') = fst (spec_cross True 101 (levels (asks ?a)) 4) \<and>
         qty (bids b') =
           (if snd (spec_cross True 101 (levels (asks ?a)) 4) > tolerance
            then (qty (bids ?a))(101 \<mapsto> dict_get (qty (bids ?a)) 101 0 +
                                     snd (spec_cross True 101 (levels (asks ?a)) 4))
            else qty (bids ?a))"
    by blast
  then have a: "\<exists>t b'. place_limit_order ?a ''BUY'' 101 4 = Inr (t, b') \<and>
      levels (asks b') = [(101, 1)] \<and> qty (bids b') = Map.empty"
    unfolding ca by (auto simp: tolerance_def new_side_def)
  from place_limit_order_crosses_then_rests [of ?s 4 "''Sell''" "197 / 2"] iv q ls
  have "\<exists>t b'. place_limit_order ?s ''Sell'' (197 / 2) 4 = Inr (t, b') \<and> top10 b' = Inr t \<and>
         book_inv b' \<and>
         levels (bids b') = fst (spec_cross False (197 / 2) (levels (bids ?s)) 4) \<and>
         qty (asks b') =
           (if snd (spec_cross False (197 / 2) (levels (bids ?s)) 4) > tolerance
            then (qty (asks ?s))(197 / 2 \<mapsto> dict_get (qty (asks ?s)) (197 / 2) 0 +
                                     snd (spec_cross False (197 / 2) (levels (bids ?s)) 4))
            else qty (asks ?s))"
    by blast
  then have s: "\<exists>t b'. place_limit_order ?s ''Sell'' (197 / 2) 4 = Inr (t, b') \<and>
      levels (bids b') = [(98, 1)] \<and> qty (asks b') = [197 / 2 \<mapsto> 2]"
    unfolding cs by (auto simp: tolerance_def new_side_def dict_get_def)
  from ia iv q lb ls a s show ?thesis by blast
qed

text \<open>
  The example of claim C1 as the specification states it fails: the buy at 100.5 for 4 does
  not leave asks \<open>{101: 1}\<close> and empty bids, and the buy for 5 does not empty the asks. The
  level at 101 is above the limit and is never touched; what is left of the order rests
  on the bids.
\<close>

theorem crossing_example_stops_at_limit:
  "place_limit_order
     \<lparr>bids = new_side False,
      asks = \<lparr>is_ask = True, prices = [100, 101], qty = [100 \<mapsto> 2, 101 \<mapsto> 3]\<rparr>\<rparr>
     ''buy'' (201 / 2) 4 =
   Inr (\<lparr>top_bids = [(201 / 2, 2)], top_asks = [(101, 3)]\<rparr>,
        \<lparr>bids = \<lparr>is_ask = False, prices = [201 / 2], qty = [201 / 2 \<mapsto> 2]\<rparr>,
         asks = \<lparr>is_ask = True, prices = [101], qty = [101 \<mapsto> 3]\<rparr>\<rparr>) \<and>
   place_limit_order
     \<lparr>bids = new_side False,
      asks = \<lparr>is_ask = True, prices = [100, 101], qty = [100 \<mapsto> 2, 101 \<mapsto> 3]\<rparr>\<rparr>
     ''buy'' (201 / 2) 5 =
   Inr (\<lparr>top_bids = [(201 / 2, 3)], top_asks = [(101, 3)]\<rparr>,
        \<lparr>bids = \<lparr>is_ask = False, prices = [201 / 2], qty = [201 / 2 \<mapsto> 3]\<rparr>,
         asks = \<lparr>is_ask = True, prices = [101], qty = [101 \<mapsto> 3]\<rparr>\<rparr>)"
  using place_example_limit_below by blast

end
